theory Spec2Isabelle
  imports Main "HOL-Library.Sublist" "HOL-Library.AList" "HOL-Library.Multiset"
begin

section \<open>JavaScript strings and arrays\<close>

text \<open>
  A JavaScript string is modelled as a \<open>string\<close> (a list of characters); every
  operation below only compares characters for equality.  The functions follow
  \<open>String.prototype.indexOf\<close>, \<open>lastIndexOf\<close>, \<open>substr\<close> and \<open>replace\<close> (with a
  string pattern), and return \<open>-1\<close> where JavaScript does.
\<close>

fun indexOf :: "string \<Rightarrow> string \<Rightarrow> int" where
  "indexOf [] pat = (if pat = [] then 0 else - 1)"
| "indexOf (c # s) pat =
     (if prefix pat (c # s) then 0
      else (let i = indexOf s pat in if i = - 1 then - 1 else i + 1))"

fun lastIndexOf :: "string \<Rightarrow> string \<Rightarrow> int" where
  "lastIndexOf [] pat = (if pat = [] then 0 else - 1)"
| "lastIndexOf (c # s) pat =
     (let i = lastIndexOf s pat in
      if i \<noteq> - 1 then i + 1 else if prefix pat (c # s) then 0 else - 1)"

definition substr :: "string \<Rightarrow> int \<Rightarrow> int \<Rightarrow> string" where
  "substr s start len =
     (let size = int (length s);
          st = (if start < 0 then max (size + start) 0 else min start size)
      in take (nat len) (drop (nat st) s))"

text \<open>
  \<open>replace\<close> with a string pattern replaces the first occurrence only, and the
  replacement text is expanded first: \<open>$$\<close> is a dollar sign, \<open>$&\<close> the matched text,
  \<open>$`\<close> the text before the match and \<open>$'\<close> the text after it.  A string pattern has
  no capture groups, so every other \<open>$\<close> stands for itself.
\<close>

fun getSubstitution :: "string \<Rightarrow> string \<Rightarrow> string \<Rightarrow> string \<Rightarrow> string" where
  "getSubstitution matched preceding following [] = []"
| "getSubstitution matched preceding following [c] = [c]"
| "getSubstitution matched preceding following (c # d # r) =
     (if c = CHR ''$'' then
        (if d = CHR ''$'' then CHR ''$'' # getSubstitution matched preceding following r
         else if d = CHR ''&'' then matched @ getSubstitution matched preceding following r
         else if d = CHR 0x60 then preceding @ getSubstitution matched preceding following r
         else if d = CHR 0x27 then following @ getSubstitution matched preceding following r
         else c # getSubstitution matched preceding following (d # r))
      else c # getSubstitution matched preceding following (d # r))"

definition replace :: "string \<Rightarrow> string \<Rightarrow> string \<Rightarrow> string" where
  "replace s pat r =
     (let pos = indexOf s pat in
      if pos = - 1 then s
      else (let preceding = take (nat pos) s;
                following = drop (nat pos + length pat) s
            in preceding @ getSubstitution pat preceding following r @ following))"

text \<open>\<open>Array.prototype.indexOf\<close>: the first position holding the element, or \<open>-1\<close>.\<close>

fun arrayIndexOf :: "'a list \<Rightarrow> 'a \<Rightarrow> int" where
  "arrayIndexOf [] x = - 1"
| "arrayIndexOf (y # ys) x =
     (if y = x then 0
      else (let i = arrayIndexOf ys x in if i = - 1 then - 1 else i + 1))"

section \<open>Errors\<close>

text \<open>
  The source has no \<open>throw\<close>.  The only operation of its own that can fail is reading
  a field of \<open>urm[relation]\<close> when that property does not exist, a \<open>TypeError\<close>.
\<close>

datatype error = TypeError

text \<open>\<open>forEach\<close> with a callback that may throw: the first error ends the loop.\<close>

fun forEach :: "('a \<Rightarrow> 's \<Rightarrow> error + 's) \<Rightarrow> 'a list \<Rightarrow> 's \<Rightarrow> error + 's" where
  "forEach f [] s = Inr s"
| "forEach f (x # xs) s = (case f x s of Inl e \<Rightarrow> Inl e | Inr s' \<Rightarrow> forEach f xs s')"

text \<open>\<open>Array.prototype.map\<close> with a callback that may throw.\<close>

fun mapArray :: "('a \<Rightarrow> error + 'b) \<Rightarrow> 'a list \<Rightarrow> error + 'b list" where
  "mapArray f [] = Inr []"
| "mapArray f (x # xs) =
     (case f x of Inl e \<Rightarrow> Inl e
      | Inr y \<Rightarrow> (case mapArray f xs of Inl e \<Rightarrow> Inl e | Inr ys \<Rightarrow> Inr (y # ys)))"

section \<open>The store of string arrays\<close>

text \<open>
  \<open>sanitizeFieldMap\<close> deletes elements of an array in place, so arrays live in a
  store: a reference is an index into the store, and an array is a list of cells
  in which \<open>None\<close> is a hole left by \<open>delete\<close>.  An argument of type \<open>string[]\<close> has no
  holes.
\<close>

type_synonym array = "string option list"
type_synonym heap = "array list"

definition alloc :: "array \<Rightarrow> heap \<Rightarrow> nat \<times> heap" where
  "alloc a h = (length h, h @ [a])"

text \<open>The elements that \<open>forEach\<close>, \<open>filter\<close> and \<open>map\<close> visit: holes are skipped.\<close>

primrec present :: "array \<Rightarrow> string list" where
  "present [] = []"
| "present (c # cs) = (case c of None \<Rightarrow> present cs | Some s \<Rightarrow> s # present cs)"

section \<open>sanitizeFieldMap\<close>

text \<open>
  The body of the inner callback, for the outer element \<open>field\<close> at index \<open>key\<close>:
  \<open>forEach\<close> passes over a hole, the element's own index returns at once, and an
  element that contains \<open>field\<close> deletes \<open>map[key]\<close>.
\<close>

definition sanitizeInner :: "nat \<Rightarrow> string \<Rightarrow> nat \<Rightarrow> nat \<Rightarrow> heap \<Rightarrow> heap" where
  "sanitizeInner map' field key otherKey h =
     (case h ! map' ! otherKey of
        None \<Rightarrow> h
      | Some otherField \<Rightarrow>
          if otherKey = key then h
          else if indexOf otherField field \<noteq> - 1 then h[map' := (h ! map')[key := None]]
          else h)"

definition sanitizeOuter :: "nat \<Rightarrow> nat \<Rightarrow> heap \<Rightarrow> heap" where
  "sanitizeOuter map' key h =
     (case h ! map' ! key of
        None \<Rightarrow> h
      | Some field \<Rightarrow> fold (sanitizeInner map' field key) [0..<length (h ! map')] h)"

text \<open>
  \<open>[...fieldMap]\<close> allocates a copy, both loops run over the copy, and \<open>filter\<close>
  allocates the array that is returned.  The copy is that of an argument without
  holes: the source would copy a hole as \<open>undefined\<close>, on which \<open>indexOf\<close> raises a
  \<open>TypeError\<close>.  An argument with a hole is outside this model, and every statement
  about \<open>sanitizeFieldMap\<close> and \<open>mapGraph\<close> below assumes an argument without holes.
\<close>

definition sanitizeFieldMap :: "nat \<Rightarrow> heap \<Rightarrow> nat \<times> heap" where
  "sanitizeFieldMap fieldMap h =
     (let (map', h1) = alloc (h ! fieldMap) h;
          h2 = fold (sanitizeOuter map') [0..<length (h1 ! map')] h1
      in alloc (map Some (present (h2 ! map'))) h2)"

section \<open>getRelationMap\<close>

definition getRelationMap :: "string list \<Rightarrow> string list" where
  "getRelationMap fieldMap =
     fold (\<lambda>field map'.
             (let relation = substr field 0 (lastIndexOf field ''.'')
              in if arrayIndexOf map' relation = - 1 then map' @ [relation] else map'))
          (filter (\<lambda>field. indexOf field ''.'' \<noteq> - 1) fieldMap) []"

section \<open>The UniqueRelationMap object\<close>

record RelationBinding =
  uniqueAlias :: string
  targetRelation :: string
  aliasedTargetRelation :: string

text \<open>
  \<open>urm\<close> is a plain object created by \<open>{}\<close>: its own properties, in the order of their
  creation.
\<close>

type_synonym UniqueRelationMap = "(string \<times> RelationBinding) list"

text \<open>
  A property key that is the canonical decimal form of an integer below \<open>2^32 - 1\<close>
  is an array index; \<open>Object.keys\<close> lists those first, in ascending numeric order,
  and then the other keys in creation order.
\<close>

definition isDigit :: "char \<Rightarrow> bool" where
  "isDigit c = (48 \<le> (of_char c :: int) \<and> (of_char c :: int) \<le> 57)"

definition decimalValue :: "string \<Rightarrow> int" where
  "decimalValue s = foldl (\<lambda>n c. 10 * n + (of_char c - 48)) 0 s"

definition isArrayIndex :: "string \<Rightarrow> bool" where
  "isArrayIndex k =
     (k \<noteq> [] \<and> list_all isDigit k \<and> (if hd k = CHR ''0'' then k = ''0'' else True)
      \<and> decimalValue k < 2 ^ 32 - 1)"

definition Object_keys :: "UniqueRelationMap \<Rightarrow> string list" where
  "Object_keys urm =
     sort_key decimalValue (filter isArrayIndex (map fst urm))
     @ filter (\<lambda>k. \<not> isArrayIndex k) (map fst urm)"

text \<open>
  \<open>urm[relation].field\<close>: the binding of an own property.  For a key that is not an
  own property the read goes to the prototype and the field access fails or yields
  \<open>undefined\<close>; both are the error here.
\<close>

definition getBinding :: "UniqueRelationMap \<Rightarrow> string \<Rightarrow> error + RelationBinding" where
  "getBinding urm relation =
     (case map_of urm relation of None \<Rightarrow> Inl TypeError | Some b \<Rightarrow> Inr b)"

text \<open>
  \<open>urm[key] = binding\<close>: an existing own property keeps its place, a new one goes
  last.  The key \<open>__proto__\<close> is the prototype accessor of \<open>Object.prototype\<close>: the
  assignment sets the prototype and creates no own property.
\<close>

definition setBinding :: "UniqueRelationMap \<Rightarrow> string \<Rightarrow> RelationBinding \<Rightarrow> UniqueRelationMap" where
  "setBinding urm key b = (if key = ''__proto__'' then urm else AList.update key b urm)"

section \<open>getUniqueRelationMap\<close>

definition getAliasedTargetRelation :: "UniqueRelationMap \<Rightarrow> string \<Rightarrow> error + string" where
  "getAliasedTargetRelation urm targetRelation' =
     (if indexOf targetRelation' ''.'' = - 1 then Inr targetRelation'
      else
        (let prefix' = substr targetRelation' 0 (lastIndexOf targetRelation' ''.'') in
         case forEach
                (\<lambda>relation targetRel.
                   if relation = prefix' then
                     (case getBinding urm relation of
                        Inl e \<Rightarrow> Inl e
                      | Inr b \<Rightarrow> Inr (replace targetRelation' prefix' (uniqueAlias b)))
                   else Inr targetRel)
                (Object_keys urm) []
         of Inl e \<Rightarrow> Inl e
          | Inr targetRel \<Rightarrow> Inr (if targetRel = [] then targetRelation' else targetRel)))"

text \<open>
  Modelled from the spec: \<open>UniqueIdGenerator.makeId\<close> is not among the sources.  It
  returns a short random alphanumeric token (\<open>ax439\<close>, \<open>43qcO\<close> in the comment of
  \<open>getUniqueRelationMap\<close>); \<open>makeId n\<close> is the token returned by call number \<open>n\<close>
  (from 0) of one run, so \<open>makeId\<close> is the output stream of the generator.  The state
  of the loop is the map and the number of calls made.
\<close>

definition relationStep ::
  "(nat \<Rightarrow> string) \<Rightarrow> string \<Rightarrow> UniqueRelationMap \<times> nat \<Rightarrow> error + UniqueRelationMap \<times> nat" where
  "relationStep makeId targetRelation' st =
     (case st of (urm, calls) \<Rightarrow>
        (case getAliasedTargetRelation urm targetRelation' of
           Inl e \<Rightarrow> Inl e
         | Inr aliasedTargetRelation' \<Rightarrow>
             (let uniqueAlias' = makeId calls in
              Inr (setBinding urm targetRelation'
                     \<lparr>uniqueAlias = uniqueAlias',
                      targetRelation = targetRelation',
                      aliasedTargetRelation = aliasedTargetRelation'\<rparr>,
                   Suc calls))))"

definition getUniqueRelationMap :: "(nat \<Rightarrow> string) \<Rightarrow> string list \<Rightarrow> error + UniqueRelationMap" where
  "getUniqueRelationMap makeId fieldMap =
     (let relationMap = getRelationMap fieldMap in
      case forEach (relationStep makeId) relationMap ([], 0) of
        Inl e \<Rightarrow> Inl e
      | Inr (urm, calls) \<Rightarrow> Inr urm)"

section \<open>The query builder\<close>

text \<open>
  Modelled from the spec: the query builder is typeorm's \<open>SelectQueryBuilder\<close>, not
  part of the repository.  It has the root alias, \<open>leftJoinAndSelect\<close> declares a
  join and \<open>select\<close> replaces the projection.  The record keeps every call in order,
  and every call returns: what the collaborator does with a call, rejecting it
  included, is not part of this model.
\<close>

record SelectQueryBuilder =
  alias' :: string
  joins :: "(string \<times> string) list"
  selects :: "string list list"

definition leftJoinAndSelect :: "string \<Rightarrow> string \<Rightarrow> SelectQueryBuilder \<Rightarrow> SelectQueryBuilder" where
  "leftJoinAndSelect target al q = q\<lparr>joins := joins q @ [(target, al)]\<rparr>"

definition select :: "string list \<Rightarrow> SelectQueryBuilder \<Rightarrow> SelectQueryBuilder" where
  "select selection q = q\<lparr>selects := selects q @ [selection]\<rparr>"

section \<open>joinRelationsToQuery and assignSelectionToQuery\<close>

definition joinRelationsToQuery ::
  "UniqueRelationMap \<Rightarrow> SelectQueryBuilder \<Rightarrow> error + SelectQueryBuilder" where
  "joinRelationsToQuery urm query =
     forEach
       (\<lambda>relation q.
          case getBinding urm relation of
            Inl e \<Rightarrow> Inl e
          | Inr b \<Rightarrow>
              if indexOf relation ''.'' = - 1
              then Inr (leftJoinAndSelect (alias' q @ targetRelation b) (uniqueAlias b) q)
              else Inr (leftJoinAndSelect (aliasedTargetRelation b) (uniqueAlias b) q))
       (Object_keys urm) query"

text \<open>The callback of \<open>fieldMap.map\<close>; the calls of \<open>console.log\<close> have no effect here.\<close>

definition selectField :: "UniqueRelationMap \<Rightarrow> string \<Rightarrow> string \<Rightarrow> error + string" where
  "selectField urm queryAlias field =
     (case forEach
             (\<lambda>relation uf.
                if indexOf field relation \<noteq> - 1 then
                  (case getBinding urm relation of
                     Inl e \<Rightarrow> Inl e
                   | Inr b \<Rightarrow> Inr (replace field relation (uniqueAlias b)))
                else Inr uf)
             (Object_keys urm) field
      of Inl e \<Rightarrow> Inl e
       | Inr uf \<Rightarrow> Inr (if indexOf uf ''.'' = - 1 then queryAlias @ ''.'' @ uf else uf))"

definition assignSelectionToQuery ::
  "string list \<Rightarrow> UniqueRelationMap \<Rightarrow> SelectQueryBuilder \<Rightarrow> error + SelectQueryBuilder" where
  "assignSelectionToQuery fieldMap urm query =
     (case mapArray (selectField urm (alias' query)) fieldMap of
        Inl e \<Rightarrow> Inl e
      | Inr selection \<Rightarrow> Inr (select selection query))"

section \<open>mapGraph\<close>

text \<open>
  \<open>query.connection.getMetadata(entity)\<close> is a call to the collaborator whose result
  is used by disabled code only; like the other calls to the collaborator it
  returns.  The result of \<open>mapGraph\<close> is the map together with the final query
  builder and store.
\<close>

definition mapGraph ::
  "(nat \<Rightarrow> string) \<Rightarrow> nat \<Rightarrow> SelectQueryBuilder \<Rightarrow> 'e \<Rightarrow> heap
     \<Rightarrow> error + UniqueRelationMap \<times> SelectQueryBuilder \<times> heap" where
  "mapGraph makeId fieldMap query entity h =
     (let (effectiveFieldMap, h') = sanitizeFieldMap fieldMap h;
          effective = present (h' ! effectiveFieldMap)
      in case getUniqueRelationMap makeId effective of
           Inl e \<Rightarrow> Inl e
         | Inr urm \<Rightarrow>
             (case joinRelationsToQuery urm query of
                Inl e \<Rightarrow> Inl e
              | Inr q1 \<Rightarrow>
                  (case assignSelectionToQuery effective urm q1 of
                     Inl e \<Rightarrow> Inl e
                   | Inr q2 \<Rightarrow> Inr (urm, q2, h'))))"

section \<open>Notions of the specification\<close>

subsection \<open>Paths and relation paths\<close>

text \<open>
  The part of a path before its last dot, and a list reduced to the first occurrence
  of each element (\<open>remdups\<close> keeps the last occurrence, so the list is reversed
  before and after).
\<close>

definition beforeLastDot :: "string \<Rightarrow> string" where
  "beforeLastDot p = rev (tl (dropWhile (\<lambda>c. c \<noteq> CHR ''.'') (rev p)))"

definition firstSeen :: "'a list \<Rightarrow> 'a list" where
  "firstSeen xs = rev (remdups (rev xs))"

subsection \<open>Sanitation\<close>

text \<open>
  The positions of a list of paths that sanitation keeps: no other position holds a
  different path containing this one, and no later position holds the same path.
  \<open>sanitized\<close> is the list of the paths at those positions.
\<close>

definition survives :: "string list \<Rightarrow> nat \<Rightarrow> bool" where
  "survives xs i =
     (\<not> list_ex (\<lambda>j. j \<noteq> i \<and> sublist (xs ! i) (xs ! j) \<and> xs ! j \<noteq> xs ! i) [0..<length xs]
      \<and> \<not> list_ex (\<lambda>j. i < j \<and> xs ! j = xs ! i) [0..<length xs])"

definition sanitized :: "string list \<Rightarrow> string list" where
  "sanitized xs = map (\<lambda>i. xs ! i) (filter (survives xs) [0..<length xs])"

text \<open>
  The working copy of \<open>sanitizeFieldMap\<close> after the outer loop has passed the first
  \<open>k\<close> positions.
\<close>

definition marked :: "string list \<Rightarrow> nat \<Rightarrow> array" where
  "marked xs k =
     map (\<lambda>i. if i < k \<and> \<not> survives xs i then None else Some (xs ! i)) [0..<length xs]"

subsection \<open>Alias resolution\<close>

text \<open>
  The \<open>aliasedTargetRelation\<close> of a relation path \<open>R\<close> over a map: \<open>R\<close> with its parent
  prefix replaced, by the \<open>replace\<close> of the source, with the parent's \<open>uniqueAlias\<close> when
  the parent is a key of the map, and \<open>R\<close> itself otherwise.
\<close>

definition aliasedOf :: "UniqueRelationMap \<Rightarrow> string \<Rightarrow> string" where
  "aliasedOf urm R =
     (if CHR ''.'' \<in> set R then
        (case map_of urm (beforeLastDot R) of
           None \<Rightarrow> R
         | Some pb \<Rightarrow> replace R (beforeLastDot R) (uniqueAlias pb))
      else R)"

text \<open>
  A map is chained when every entry has its key as \<open>targetRelation\<close> and its
  \<open>aliasedTargetRelation\<close> resolved over the entries before it.
\<close>

fun chained :: "UniqueRelationMap \<Rightarrow> UniqueRelationMap \<Rightarrow> bool" where
  "chained earlier [] = True"
| "chained earlier (e # later) =
     (targetRelation (snd e) = fst e
      \<and> aliasedTargetRelation (snd e) = aliasedOf earlier (fst e)
      \<and> chained (earlier @ [e]) later)"

text \<open>
  The map that the loop of \<open>getUniqueRelationMap\<close> builds from a map \<open>urm\<close>, call number
  \<open>n\<close> and the relation paths still to come, when none of them is a key yet: every
  path takes one token, and every path but \<open>__proto__\<close> adds one entry at the end.
\<close>

fun resolved :: "(nat \<Rightarrow> string) \<Rightarrow> nat \<Rightarrow> UniqueRelationMap \<Rightarrow> string list \<Rightarrow> UniqueRelationMap" where
  "resolved makeId n urm [] = urm"
| "resolved makeId n urm (R # rs) =
     resolved makeId (Suc n)
       (if R = ''__proto__'' then urm
        else urm @ [(R, \<lparr>uniqueAlias = makeId n, targetRelation = R,
                          aliasedTargetRelation = aliasedOf urm R\<rparr>)])
       rs"

text \<open>The aliases of a map, in the order of its entries.\<close>

definition aliases :: "UniqueRelationMap \<Rightarrow> string list" where
  "aliases urm = map (\<lambda>e. uniqueAlias (snd e)) urm"

subsection \<open>Joins and projection\<close>

text \<open>
  The entries of a map in the order of \<open>Object.keys\<close>, and the \<open>leftJoinAndSelect\<close> call
  that belongs to an entry: target and alias.
\<close>

definition ownEntries :: "UniqueRelationMap \<Rightarrow> (string \<times> RelationBinding) list" where
  "ownEntries urm =
     sort_key (\<lambda>e. decimalValue (fst e)) (filter (\<lambda>e. isArrayIndex (fst e)) urm)
     @ filter (\<lambda>e. \<not> isArrayIndex (fst e)) urm"

definition joinOf :: "string \<Rightarrow> string \<times> RelationBinding \<Rightarrow> string \<times> string" where
  "joinOf rootAlias e =
     (if CHR ''.'' \<in> set (fst e) then aliasedTargetRelation (snd e)
      else rootAlias @ targetRelation (snd e),
      uniqueAlias (snd e))"

text \<open>
  Plain replacement of the first occurrence of \<open>pat\<close> in \<open>s\<close> by \<open>r\<close>, and the entry of
  the projection for a path: the last entry of the map, in creation order, whose key
  occurs in the path decides; the key is replaced in the original path by the
  entry's \<open>uniqueAlias\<close>, and a result without a dot gets the root alias and a dot in
  front.
\<close>

fun replaceFirst :: "string \<Rightarrow> string \<Rightarrow> string \<Rightarrow> string" where
  "replaceFirst [] pat r = (if pat = [] then r else [])"
| "replaceFirst (c # s) pat r =
     (if prefix pat (c # s) then r @ drop (length pat) (c # s) else c # replaceFirst s pat r)"

definition rewritten :: "UniqueRelationMap \<Rightarrow> string \<Rightarrow> string \<Rightarrow> string" where
  "rewritten urm rootAlias field =
     (let matching = filter (\<lambda>e. sublist (fst e) field) urm;
          uf = (if matching = [] then field
                else replaceFirst field (fst (last matching)) (uniqueAlias (snd (last matching))))
      in if CHR ''.'' \<in> set uf then uf else rootAlias @ ''.'' @ uf)"

text \<open>
  The entry that \<open>selectField\<close> computes for any map: over the keys in the order of
  \<open>Object.keys\<close>, with the binding that \<open>urm[key]\<close> reads and the \<open>replace\<close> of the source.
\<close>

definition selectedIn :: "UniqueRelationMap \<Rightarrow> string \<Rightarrow> string \<Rightarrow> string" where
  "selectedIn urm rootAlias field =
     (let matching = filter (\<lambda>k. sublist k field) (Object_keys urm);
          uf = (if matching = [] then field
                else replace field (last matching)
                       (uniqueAlias (the (map_of urm (last matching)))))
      in if CHR ''.'' \<in> set uf then uf else rootAlias @ ''.'' @ uf)"

subsection \<open>Example inputs\<close>

text \<open>
  Two output streams of the token generator, one that repeats its token and one
  whose tokens are all different, and the map of the relations \<open>store\<close> and
  \<open>store.location\<close>.
\<close>

definition constantIds :: "nat \<Rightarrow> string" where
  "constantIds n = ''aaaaa''"

definition countingIds :: "nat \<Rightarrow> string" where
  "countingIds n = replicate (Suc n) (CHR ''a'')"

definition exampleMap :: UniqueRelationMap where
  "exampleMap =
     [(''store'', \<lparr>uniqueAlias = ''a'', targetRelation = ''store'',
                   aliasedTargetRelation = ''store''\<rparr>),
      (''store.location'', \<lparr>uniqueAlias = ''aa'', targetRelation = ''store.location'',
                   aliasedTargetRelation = ''a.location''\<rparr>)]"

section \<open>Strings\<close>

lemma indexOf_ge: "- 1 \<le> indexOf s pat"
  by (induction s) (auto simp: Let_def)

lemma indexOf_sublist: "indexOf s pat \<noteq> - 1 \<longleftrightarrow> sublist pat s"
proof (induction s)
  case Nil
  show ?case by simp
next
  case (Cons c s)
  show ?case using Cons indexOf_ge[of s pat]
    by (auto simp: Let_def sublist_Cons_right)
qed

lemma indexOf_dot: "indexOf s ''.'' \<noteq> - 1 \<longleftrightarrow> CHR ''.'' \<in> set s"
proof -
  have "sublist [c] s \<longleftrightarrow> c \<in> set s" for c :: char
    by (induction s) (auto simp: sublist_Cons_right)
  then show ?thesis by (simp add: indexOf_sublist)
qed

lemma indexOf_prefix: "prefix pat s \<Longrightarrow> indexOf s pat = 0"
  by (cases s) auto

lemma lastIndexOf_none: "CHR ''.'' \<notin> set s \<Longrightarrow> lastIndexOf s ''.'' = - 1"
  by (induction s) (auto simp: Let_def)

lemma lastIndexOf_ge: "- 1 \<le> lastIndexOf s pat"
  by (induction s) (auto simp: Let_def)

lemma lastIndexOf_decomp:
  "CHR ''.'' \<notin> set leaf \<Longrightarrow> lastIndexOf (r @ CHR ''.'' # leaf) ''.'' = int (length r)"
proof (induction r)
  case Nil
  then show ?case by (simp add: lastIndexOf_none)
next
  case (Cons c r)
  then show ?case by (simp add: Let_def)
qed

lemma substr_lastIndexOf_decomp:
  "CHR ''.'' \<notin> set leaf \<Longrightarrow>
   substr (r @ ''.'' @ leaf) 0 (lastIndexOf (r @ ''.'' @ leaf) ''.'') = r"
  by (simp add: lastIndexOf_decomp substr_def)

lemma beforeLastDot_decomp:
  "CHR ''.'' \<notin> set leaf \<Longrightarrow> beforeLastDot (r @ ''.'' @ leaf) = r"
proof -
  assume "CHR ''.'' \<notin> set leaf"
  then have "dropWhile (\<lambda>c. c \<noteq> CHR ''.'') (rev leaf @ CHR ''.'' # rev r) = CHR ''.'' # rev r"
    by (subst dropWhile_append2) auto
  then show ?thesis by (simp add: beforeLastDot_def)
qed

lemma dot_decomp:
  "CHR ''.'' \<in> set p \<Longrightarrow> \<exists>r leaf. p = r @ ''.'' @ leaf \<and> CHR ''.'' \<notin> set leaf"
  using split_list_last[of "CHR ''.''" p] by auto

lemma substr_is_beforeLastDot:
  "CHR ''.'' \<in> set p \<Longrightarrow> substr p 0 (lastIndexOf p ''.'') = beforeLastDot p"
  using dot_decomp[of p] substr_lastIndexOf_decomp beforeLastDot_decomp by metis

lemma arrayIndexOf_mem: "arrayIndexOf xs x = - 1 \<longleftrightarrow> x \<notin> set xs"
proof (induction xs)
  case Nil show ?case by simp
next
  case (Cons y ys)
  have "- 1 \<le> arrayIndexOf ys x" for ys by (induction ys) (auto simp: Let_def)
  from this[of ys] Cons show ?case by (auto simp: Let_def)
qed

lemma remdups_snoc: "remdups (xs @ [x]) = remdups (filter (\<lambda>y. y \<noteq> x) xs) @ [x]"
  by (induction xs) auto

lemma firstSeen_Cons: "firstSeen (x # xs) = x # firstSeen (filter (\<lambda>y. y \<noteq> x) xs)"
  by (simp add: firstSeen_def remdups_snoc rev_filter)

lemma fold_firstSeen:
  "fold (\<lambda>x acc. if f x \<notin> set acc then acc @ [f x] else acc) ys acc
   = acc @ firstSeen (filter (\<lambda>y. y \<notin> set acc) (map f ys))"
proof (induction ys arbitrary: acc)
  case Nil
  show ?case by (simp add: firstSeen_def)
next
  case (Cons y ys)
  show ?case
  proof (cases "f y \<in> set acc")
    case True
    then show ?thesis using Cons[of acc] by simp
  next
    case False
    have "filter (\<lambda>z. z \<notin> set (acc @ [f y])) (map f ys)
        = filter (\<lambda>z. z \<noteq> f y) (filter (\<lambda>z. z \<notin> set acc) (map f ys))"
      by (auto intro: filter_cong)
    then show ?thesis using False Cons[of "acc @ [f y]"] by (simp add: firstSeen_Cons)
  qed
qed

lemma getRelationMap_closed_form:
  "getRelationMap fieldMap = firstSeen (map beforeLastDot (filter (\<lambda>p. CHR ''.'' \<in> set p) fieldMap))"
proof -
  let ?ys = "filter (\<lambda>p. CHR ''.'' \<in> set p) fieldMap"
  have "getRelationMap fieldMap
      = fold (\<lambda>x acc. if (\<lambda>p. substr p 0 (lastIndexOf p ''.'')) x \<notin> set acc
                        then acc @ [(\<lambda>p. substr p 0 (lastIndexOf p ''.'')) x] else acc) ?ys []"
    by (simp add: getRelationMap_def indexOf_dot arrayIndexOf_mem Let_def)
  also have "\<dots> = firstSeen (map (\<lambda>p. substr p 0 (lastIndexOf p ''.'')) ?ys)"
    by (subst fold_firstSeen) simp
  also have "map (\<lambda>p. substr p 0 (lastIndexOf p ''.'')) ?ys = map beforeLastDot ?ys"
    by (rule map_cong) (auto simp: substr_is_beforeLastDot)
  finally show ?thesis .
qed


lemma set_firstSeen: "set (firstSeen xs) = set xs"
  by (simp add: firstSeen_def)

lemma distinct_firstSeen: "distinct (firstSeen xs)"
  by (simp add: firstSeen_def)

lemma set_relations:
  "set (map beforeLastDot (filter (\<lambda>p. CHR ''.'' \<in> set p) fieldMap))
   = {r. \<exists>leaf. r @ ''.'' @ leaf \<in> set fieldMap \<and> CHR ''.'' \<notin> set leaf}"
proof (intro set_eqI iffI)
  fix r
  assume "r \<in> set (map beforeLastDot (filter (\<lambda>p. CHR ''.'' \<in> set p) fieldMap))"
  then obtain p where p: "p \<in> set fieldMap" "CHR ''.'' \<in> set p" "r = beforeLastDot p"
    by auto
  from dot_decomp[OF p(2)] obtain r' leaf where
    d: "p = r' @ ''.'' @ leaf" "CHR ''.'' \<notin> set leaf" by blast
  have "beforeLastDot p = r'" unfolding d(1) by (rule beforeLastDot_decomp[OF d(2)])
  with p(3) have "r = r'" by (simp only:)
  with d p(1) show "r \<in> {r. \<exists>leaf. r @ ''.'' @ leaf \<in> set fieldMap \<and> CHR ''.'' \<notin> set leaf}"
    by blast
next
  fix r
  assume "r \<in> {r. \<exists>leaf. r @ ''.'' @ leaf \<in> set fieldMap \<and> CHR ''.'' \<notin> set leaf}"
  then obtain leaf where l: "r @ ''.'' @ leaf \<in> set fieldMap" "CHR ''.'' \<notin> set leaf"
    by blast
  have e: "beforeLastDot (r @ ''.'' @ leaf) = r" by (rule beforeLastDot_decomp[OF l(2)])
  have "r @ ''.'' @ leaf \<in> set (filter (\<lambda>p. CHR ''.'' \<in> set p) fieldMap)"
    using l(1) by simp
  then have "beforeLastDot (r @ ''.'' @ leaf)
      \<in> beforeLastDot ` set (filter (\<lambda>p. CHR ''.'' \<in> set p) fieldMap)"
    by (rule imageI)
  then show "r \<in> set (map beforeLastDot (filter (\<lambda>p. CHR ''.'' \<in> set p) fieldMap))"
    by (simp only: e set_map)
qed

text \<open>
  Claim C6.  \<open>getRelationMap\<close> returns a list without duplicates whose elements are
  exactly the parts before the last dot of the input paths that contain a dot (a
  relation \<open>r\<close> is in the result when the input has a path \<open>r.leaf\<close> with no dot in
  \<open>leaf\<close>), in the order of their first occurrence; paths without a dot contribute
  nothing.  For the four paths of the test the result is \<open>store\<close>, \<open>store.location\<close>.
\<close>

theorem getRelationMap_first_seen:
  "distinct (getRelationMap fieldMap)
   \<and> set (getRelationMap fieldMap)
       = {r. \<exists>leaf. r @ ''.'' @ leaf \<in> set fieldMap \<and> CHR ''.'' \<notin> set leaf}
   \<and> getRelationMap fieldMap
       = firstSeen (map beforeLastDot (filter (\<lambda>p. CHR ''.'' \<in> set p) fieldMap))
   \<and> getRelationMap [''store.name'', ''store.location.streetName'', ''store.id'',
                      ''store.location.city'']
       = [''store'', ''store.location'']"
proof (intro conjI)
  show "distinct (getRelationMap fieldMap)"
    by (simp only: getRelationMap_closed_form distinct_firstSeen)
  show "set (getRelationMap fieldMap)
       = {r. \<exists>leaf. r @ ''.'' @ leaf \<in> set fieldMap \<and> CHR ''.'' \<notin> set leaf}"
    by (simp only: getRelationMap_closed_form set_firstSeen set_relations)
  show "getRelationMap fieldMap
       = firstSeen (map beforeLastDot (filter (\<lambda>p. CHR ''.'' \<in> set p) fieldMap))"
    by (rule getRelationMap_closed_form)
  show "getRelationMap [''store.name'', ''store.location.streetName'', ''store.id'',
                      ''store.location.city'']
       = [''store'', ''store.location'']"
    by code_simp
qed

section \<open>Sanitation\<close>

lemma survives_iff:
  "survives xs i \<longleftrightarrow>
     (\<not> (\<exists>j<length xs. j \<noteq> i \<and> sublist (xs ! i) (xs ! j) \<and> xs ! j \<noteq> xs ! i)
      \<and> \<not> (\<exists>j<length xs. i < j \<and> xs ! j = xs ! i))"
  by (auto simp: survives_def list_ex_iff)

lemma sanitizeInner_step:
  assumes r: "r < length H" and key: "key < length a" and a: "a ! key = Some field"
    and H': "H' = H[r := a] \<or> H' = H[r := a[key := None]]" and j: "j < length a"
  shows "sanitizeInner r field key j H' =
    (if j \<noteq> key \<and> (\<exists>v. a ! j = Some v \<and> sublist field v) then H[r := a[key := None]] else H')"
proof (cases "j = key")
  case True
  from H' show ?thesis
  proof
    assume "H' = H[r := a]"
    then show ?thesis using True r a by (simp add: sanitizeInner_def)
  next
    assume "H' = H[r := a[key := None]]"
    then show ?thesis using True r key by (simp add: sanitizeInner_def)
  qed
next
  case False
  from H' show ?thesis
  proof
    assume e: "H' = H[r := a]"
    show ?thesis
    proof (cases "a ! j")
      case None
      then show ?thesis using e r False by (simp add: sanitizeInner_def)
    next
      case (Some v)
      then show ?thesis using e r False by (simp add: sanitizeInner_def indexOf_sublist)
    qed
  next
    assume e: "H' = H[r := a[key := None]]"
    show ?thesis
    proof (cases "a ! j")
      case None
      then show ?thesis using e r False by (simp add: sanitizeInner_def)
    next
      case (Some v)
      then show ?thesis using e r False by (simp add: sanitizeInner_def indexOf_sublist)
    qed
  qed
qed

lemma sanitizeInner_fold:
  assumes r: "r < length H" and key: "key < length a" and a: "a ! key = Some field"
    and m: "m \<le> length a"
  shows "fold (sanitizeInner r field key) [0..<m] (H[r := a]) =
    (if \<exists>j<m. j \<noteq> key \<and> (\<exists>v. a ! j = Some v \<and> sublist field v)
     then H[r := a[key := None]] else H[r := a])"
  using m
proof (induction m)
  case 0
  show ?case by simp
next
  case (Suc m)
  let ?hit = "\<lambda>j. j \<noteq> key \<and> (\<exists>v. a ! j = Some v \<and> sublist field v)"
  let ?mid = "fold (sanitizeInner r field key) [0..<m] (H[r := a])"
  have mid: "?mid = (if \<exists>j<m. ?hit j then H[r := a[key := None]] else H[r := a])"
    using Suc by simp
  then have cases: "?mid = H[r := a] \<or> ?mid = H[r := a[key := None]]"
    by (simp split: if_splits)
  have ma: "m < length a" using Suc.prems by simp
  have "fold (sanitizeInner r field key) [0..<Suc m] (H[r := a])
      = sanitizeInner r field key m ?mid" by simp
  also have "\<dots> = (if ?hit m then H[r := a[key := None]] else ?mid)"
    by (rule sanitizeInner_step[OF r key a cases ma])
  also have "\<dots> = (if \<exists>j<Suc m. ?hit j then H[r := a[key := None]] else H[r := a])"
    unfolding mid by (auto simp: less_Suc_eq)
  finally show ?case .
qed

lemma sanitizeOuter_eq:
  assumes r: "r < length H" and key: "key < length a"
  shows "sanitizeOuter r key (H[r := a]) =
    H[r := (case a ! key of None \<Rightarrow> a
            | Some field \<Rightarrow>
                if \<exists>j<length a. j \<noteq> key \<and> (\<exists>v. a ! j = Some v \<and> sublist field v)
                then a[key := None] else a)]"
proof (cases "a ! key")
  case None
  then show ?thesis using r by (simp add: sanitizeOuter_def)
next
  case (Some field)
  have "sanitizeOuter r key (H[r := a])
      = fold (sanitizeInner r field key) [0..<length a] (H[r := a])"
    using Some r by (simp add: sanitizeOuter_def)
  also have "\<dots> = (if \<exists>j<length a. j \<noteq> key \<and> (\<exists>v. a ! j = Some v \<and> sublist field v)
     then H[r := a[key := None]] else H[r := a])"
    by (rule sanitizeInner_fold[OF r key Some order_refl])
  finally show ?thesis using Some by auto
qed


lemma sublist_same_length: "sublist xs ys \<Longrightarrow> length xs = length ys \<Longrightarrow> xs = ys"
  by (auto simp: sublist_def)

lemma sublist_strict_length:
  "sublist xs ys \<Longrightarrow> xs \<noteq> ys \<Longrightarrow> length xs < length ys"
  using sublist_same_length[of xs ys] sublist_length_le[of xs ys] by linarith

lemma sublist_trans': "sublist xs ys \<Longrightarrow> sublist ys zs \<Longrightarrow> sublist xs zs"
  by (rule sublist_order.order_trans)

lemma sublist_antisym':
  assumes a: "sublist xs ys" and b: "sublist ys xs"
  shows "xs = ys"
proof -
  have "length xs = length ys"
    using sublist_length_le[OF a] sublist_length_le[OF b] by linarith
  then show ?thesis by (rule sublist_same_length[OF a])
qed

lemma nth_length_le_sum: "j < length xs \<Longrightarrow> length (xs ! j) \<le> sum_list (map length xs)"
  using elem_le_sum_list[of j "map length xs"] by simp

lemma dominator:
  "i < length xs \<Longrightarrow>
   \<exists>j<length xs. survives xs j \<and> sublist (xs ! i) (xs ! j) \<and> (xs ! j \<noteq> xs ! i \<or> i \<le> j)"
proof (induction i rule: wf_induct_rule[OF wf_measures[of
    "[\<lambda>i. sum_list (map length xs) - length (xs ! i), \<lambda>i. length xs - i]"]])
  case (1 i)
  let ?M = "sum_list (map length xs)"
  show ?case
  proof (cases "survives xs i")
    case True
    with 1(2) show ?thesis by (intro exI[of _ i]) simp
  next
    case False
    then consider
      (strict) j where "j < length xs" "j \<noteq> i" "sublist (xs ! i) (xs ! j)" "xs ! j \<noteq> xs ! i"
    | (later) j where "j < length xs" "i < j" "xs ! j = xs ! i"
      unfolding survives_iff by blast
    then show ?thesis
    proof cases
      case strict
      have lt: "length (xs ! i) < length (xs ! j)"
        using sublist_strict_length[OF strict(3)] strict(4) by auto
      have "length (xs ! j) \<le> ?M" by (rule nth_length_le_sum[OF strict(1)])
      with lt have "?M - length (xs ! j) < ?M - length (xs ! i)" by linarith
      then have "(j, i) \<in> measures [\<lambda>i. ?M - length (xs ! i), \<lambda>i. length xs - i]"
        by (rule measures_less)
      from 1(1)[OF this strict(1)] obtain j' where
        j': "j' < length xs" "survives xs j'" "sublist (xs ! j) (xs ! j')" by blast
      have "sublist (xs ! i) (xs ! j')" by (rule sublist_trans'[OF strict(3) j'(3)])
      moreover have "xs ! j' \<noteq> xs ! i"
        using sublist_length_le[OF j'(3)] lt by auto
      ultimately show ?thesis using j'(1,2) by blast
    next
      case later
      have "(j, i) \<in> measures [\<lambda>i. ?M - length (xs ! i), \<lambda>i. length xs - i]"
        using later by simp
      from 1(1)[OF this later(1)] obtain j' where
        j': "j' < length xs" "survives xs j'" "sublist (xs ! j) (xs ! j')"
          "xs ! j' \<noteq> xs ! j \<or> j \<le> j'" by blast
      have "sublist (xs ! i) (xs ! j')" using j'(3) later(3) by simp
      moreover have "xs ! j' \<noteq> xs ! i \<or> i \<le> j'" using j'(4) later(2,3) by auto
      ultimately show ?thesis using j'(1,2) by blast
    qed
  qed
qed

lemma present_superstring_iff:
  assumes k: "k < length xs"
  shows "(\<exists>j<length xs. j \<noteq> k \<and> (j < k \<longrightarrow> survives xs j) \<and> sublist (xs ! k) (xs ! j))
         \<longleftrightarrow> \<not> survives xs k"
proof
  assume "\<exists>j<length xs. j \<noteq> k \<and> (j < k \<longrightarrow> survives xs j) \<and> sublist (xs ! k) (xs ! j)"
  then obtain j where j: "j < length xs" "j \<noteq> k" "j < k \<longrightarrow> survives xs j"
    "sublist (xs ! k) (xs ! j)" by blast
  show "\<not> survives xs k"
  proof (cases "xs ! j = xs ! k")
    case False
    with j show ?thesis unfolding survives_iff by blast
  next
    case True
    show ?thesis
    proof (cases "j < k")
      case True
      with j(3) have "survives xs j" by simp
      with True \<open>xs ! j = xs ! k\<close> k show ?thesis unfolding survives_iff by metis
    next
      case False
      with j(2) have "k < j" by simp
      with \<open>xs ! j = xs ! k\<close> j(1) show ?thesis unfolding survives_iff by blast
    qed
  qed
next
  assume "\<not> survives xs k"
  then consider
    (strict) j where "j < length xs" "j \<noteq> k" "sublist (xs ! k) (xs ! j)" "xs ! j \<noteq> xs ! k"
  | (later) j where "j < length xs" "k < j" "xs ! j = xs ! k"
    unfolding survives_iff by blast
  then show "\<exists>j<length xs. j \<noteq> k \<and> (j < k \<longrightarrow> survives xs j) \<and> sublist (xs ! k) (xs ! j)"
  proof cases
    case strict
    from dominator[OF strict(1)] obtain j' where
      j': "j' < length xs" "survives xs j'" "sublist (xs ! j) (xs ! j')" by blast
    have s: "sublist (xs ! k) (xs ! j')" by (rule sublist_trans'[OF strict(3) j'(3)])
    have "j' \<noteq> k"
    proof
      assume "j' = k"
      with j'(3) strict(3) have "xs ! j = xs ! k" using sublist_antisym' by blast
      with strict(4) show False by simp
    qed
    with j' s show ?thesis by blast
  next
    case later
    from dominator[OF later(1)] obtain j' where
      j': "j' < length xs" "survives xs j'" "sublist (xs ! j) (xs ! j')"
        "xs ! j' \<noteq> xs ! j \<or> j \<le> j'" by blast
    have s: "sublist (xs ! k) (xs ! j')" using j'(3) later(3) by simp
    have "j' \<noteq> k" using j'(4) later(2,3) by auto
    with j' s show ?thesis by blast
  qed
qed


lemma length_marked: "length (marked xs k) = length xs"
  by (simp add: marked_def)

lemma nth_marked:
  "i < length xs \<Longrightarrow> marked xs k ! i = (if i < k \<and> \<not> survives xs i then None else Some (xs ! i))"
  by (simp add: marked_def)

lemma marked_0: "marked xs 0 = map Some xs"
  by (rule nth_equalityI) (simp_all add: marked_def)

lemma marked_hit_iff:
  assumes k: "k < length xs"
  shows "(\<exists>j<length (marked xs k). j \<noteq> k \<and> (\<exists>v. marked xs k ! j = Some v \<and> sublist (xs ! k) v))
         \<longleftrightarrow> \<not> survives xs k"
proof -
  have "(\<exists>j<length (marked xs k). j \<noteq> k \<and> (\<exists>v. marked xs k ! j = Some v \<and> sublist (xs ! k) v))
      \<longleftrightarrow> (\<exists>j<length xs. j \<noteq> k \<and> (j < k \<longrightarrow> survives xs j) \<and> sublist (xs ! k) (xs ! j))"
    by (auto simp: length_marked nth_marked split: if_splits)
  then show ?thesis by (simp only: present_superstring_iff[OF k])
qed

lemma marked_Suc:
  assumes k: "k < length xs"
  shows "(if \<not> survives xs k then (marked xs k)[k := None] else marked xs k) = marked xs (Suc k)"
proof (rule nth_equalityI)
  show "length (if \<not> survives xs k then (marked xs k)[k := None] else marked xs k)
      = length (marked xs (Suc k))"
    by (simp add: length_marked)
next
  fix i
  assume "i < length (if \<not> survives xs k then (marked xs k)[k := None] else marked xs k)"
  then have i: "i < length xs" by (simp add: length_marked split: if_splits)
  show "(if \<not> survives xs k then (marked xs k)[k := None] else marked xs k) ! i
      = marked xs (Suc k) ! i"
    using i k by (auto simp: nth_marked length_marked nth_list_update less_Suc_eq)
qed

lemma sanitizeOuter_marked:
  assumes r: "r < length H" and k: "k < length xs"
  shows "sanitizeOuter r k (H[r := marked xs k]) = H[r := marked xs (Suc k)]"
proof -
  have kk: "k < length (marked xs k)" using k by (simp add: length_marked)
  have at: "marked xs k ! k = Some (xs ! k)" using k by (simp add: nth_marked)
  have "sanitizeOuter r k (H[r := marked xs k])
      = H[r := (if \<not> survives xs k then (marked xs k)[k := None] else marked xs k)]"
    unfolding sanitizeOuter_eq[OF r kk] at option.case marked_hit_iff[OF k] ..
  then show ?thesis by (simp only: marked_Suc[OF k])
qed

lemma sanitizeOuter_fold:
  assumes r: "r < length H"
  shows "k \<le> length xs \<Longrightarrow>
    fold (sanitizeOuter r) [0..<k] (H[r := map Some xs]) = H[r := marked xs k]"
proof (induction k)
  case 0
  show ?case by (simp add: marked_0)
next
  case (Suc k)
  then have k: "k < length xs" by simp
  have "fold (sanitizeOuter r) [0..<Suc k] (H[r := map Some xs])
      = sanitizeOuter r k (fold (sanitizeOuter r) [0..<k] (H[r := map Some xs]))"
    by simp
  also have "\<dots> = sanitizeOuter r k (H[r := marked xs k])"
    using Suc by simp
  also have "\<dots> = H[r := marked xs (Suc k)]"
    by (rule sanitizeOuter_marked[OF r k])
  finally show ?case .
qed

lemma present_map_if:
  "present (map (\<lambda>i. if P i then None else Some (f i)) is) = map f (filter (\<lambda>i. \<not> P i) is)"
  by (induction "is") simp_all

lemma present_Some: "present (map Some ys) = ys"
  by (induction ys) simp_all

lemma present_marked: "present (marked xs (length xs)) = sanitized xs"
proof -
  have "marked xs (length xs)
      = map (\<lambda>i. if \<not> survives xs i then None else Some (xs ! i)) [0..<length xs]"
    by (simp add: marked_def)
  then show ?thesis by (simp add: present_map_if sanitized_def)
qed

lemma sanitizeFieldMap_eq:
  assumes a: "fieldMap < length h" and xs: "h ! fieldMap = map Some xs"
  shows "sanitizeFieldMap fieldMap h
       = (Suc (length h), h @ [marked xs (length xs), map Some (sanitized xs)])"
proof -
  let ?h1 = "h @ [map Some xs]"
  have h1: "?h1 = (h @ [[]])[length h := map Some xs]" by simp
  have r: "length h < length (h @ [[]])" by simp
  have "fold (sanitizeOuter (length h)) [0..<length xs] ?h1
      = (h @ [[]])[length h := marked xs (length xs)]"
    unfolding h1 by (rule sanitizeOuter_fold[OF r order_refl])
  then have f: "fold (sanitizeOuter (length h)) [0..<length xs] ?h1
      = h @ [marked xs (length xs)]" by simp
  show ?thesis
    by (simp add: sanitizeFieldMap_def alloc_def xs f present_marked)
qed


lemma subseq_map_nth_filter: "subseq (map (\<lambda>i. xs ! i) (filter P [0..<length xs])) xs"
proof (induction xs rule: rev_induct)
  case Nil
  show ?case by simp
next
  case (snoc x xs)
  have e: "map (\<lambda>i. (xs @ [x]) ! i) (filter P [0..<length xs])
         = map (\<lambda>i. xs ! i) (filter P [0..<length xs])"
    by (rule map_cong) (auto simp: nth_append)
  show ?case
  proof (cases "P (length xs)")
    case True
    then have eq: "map (\<lambda>i. (xs @ [x]) ! i) (filter P [0..<length (xs @ [x])])
        = map (\<lambda>i. xs ! i) (filter P [0..<length xs]) @ [x]"
      using e by simp
    have "subseq (map (\<lambda>i. xs ! i) (filter P [0..<length xs]) @ [x]) (xs @ [x])"
      using snoc by simp
    then show ?thesis by (simp only: eq)
  next
    case False
    then have eq: "map (\<lambda>i. (xs @ [x]) ! i) (filter P [0..<length (xs @ [x])])
        = map (\<lambda>i. xs ! i) (filter P [0..<length xs])"
      using e by simp
    have "subseq (map (\<lambda>i. xs ! i) (filter P [0..<length xs])) (xs @ [x])"
      using snoc by (rule subseq_rev_drop_many)
    then show ?thesis by (simp only: eq)
  qed
qed

lemma subseq_sanitized: "subseq (sanitized xs) xs"
  unfolding sanitized_def by (rule subseq_map_nth_filter)

lemma survives_inj:
  assumes "i < length xs" "j < length xs" "survives xs i" "survives xs j" "xs ! i = xs ! j"
  shows "i = j"
proof (rule ccontr)
  assume "i \<noteq> j"
  then consider "i < j" | "j < i" by linarith
  then show False
  proof cases
    case 1
    with assms(2,5) have "\<exists>j<length xs. i < j \<and> xs ! j = xs ! i" by auto
    with assms(3) show False unfolding survives_iff by blast
  next
    case 2
    with assms(1,5) have "\<exists>k<length xs. j < k \<and> xs ! k = xs ! j" by auto
    with assms(4) show False unfolding survives_iff by blast
  qed
qed

lemma distinct_sanitized: "distinct (sanitized xs)"
  unfolding sanitized_def
proof (subst distinct_map, intro conjI)
  show "distinct (filter (survives xs) [0..<length xs])" by simp
  show "inj_on (\<lambda>i. xs ! i) (set (filter (survives xs) [0..<length xs]))"
    by (rule inj_onI) (auto intro: survives_inj)
qed

lemma set_sanitized:
  "set (sanitized xs) = {p \<in> set xs. \<not> (\<exists>q \<in> set xs. sublist p q \<and> q \<noteq> p)}"
proof (intro set_eqI iffI)
  fix p
  assume "p \<in> set (sanitized xs)"
  then obtain i where i: "i < length xs" "survives xs i" "p = xs ! i"
    by (auto simp: sanitized_def)
  have "\<not> (\<exists>q \<in> set xs. sublist p q \<and> q \<noteq> p)"
  proof
    assume "\<exists>q \<in> set xs. sublist p q \<and> q \<noteq> p"
    then obtain j where j: "j < length xs" "sublist p (xs ! j)" "xs ! j \<noteq> p"
      by (auto simp: in_set_conv_nth)
    with i(3) have "j \<noteq> i" by auto
    with j i(3) have "\<exists>j<length xs. j \<noteq> i \<and> sublist (xs ! i) (xs ! j) \<and> xs ! j \<noteq> xs ! i"
      by auto
    with i(2) show False unfolding survives_iff by blast
  qed
  with i(1,3) show "p \<in> {p \<in> set xs. \<not> (\<exists>q \<in> set xs. sublist p q \<and> q \<noteq> p)}" by simp
next
  fix p
  assume "p \<in> {p \<in> set xs. \<not> (\<exists>q \<in> set xs. sublist p q \<and> q \<noteq> p)}"
  then have p: "p \<in> set xs" and top: "\<And>q. q \<in> set xs \<Longrightarrow> sublist p q \<Longrightarrow> q = p" by auto
  from p obtain i where i: "i < length xs" "xs ! i = p" by (auto simp: in_set_conv_nth)
  from dominator[OF i(1)] obtain j where
    j: "j < length xs" "survives xs j" "sublist (xs ! i) (xs ! j)" by blast
  have "xs ! j = p" using top[of "xs ! j"] j(1,3) i(2) by simp
  with j(1,2) show "p \<in> set (sanitized xs)" by (auto simp: sanitized_def)
qed

text \<open>
  Claim C3.  For an argument array without holes holding the paths \<open>xs\<close>, the array
  that \<open>sanitizeFieldMap\<close> returns has no holes, and its elements form a subsequence
  of \<open>xs\<close> in input order without duplicates.  A path is among them exactly when it
  is in \<open>xs\<close> and no different path of \<open>xs\<close> contains it as a substring; so a path
  contained in a different path is dropped, and of equal paths one occurrence stays
  (the last, by \<open>sanitized\<close>) unless a different path contains them.
\<close>

theorem sanitizeFieldMap_subsequence:
  assumes "fieldMap < length h" and "h ! fieldMap = map Some xs"
    and "sanitizeFieldMap fieldMap h = (res, h')"
  shows "h' ! res = map Some (present (h' ! res))
       \<and> subseq (present (h' ! res)) xs
       \<and> distinct (present (h' ! res))
       \<and> set (present (h' ! res)) = {p \<in> set xs. \<not> (\<exists>q \<in> set xs. sublist p q \<and> q \<noteq> p)}
       \<and> present (h' ! res) = sanitized xs"
proof -
  from assms have res: "res = Suc (length h)"
    and h': "h' = h @ [marked xs (length xs), map Some (sanitized xs)]"
    by (simp_all add: sanitizeFieldMap_eq)
  have at: "h' ! res = map Some (sanitized xs)"
    unfolding res h' by (simp add: nth_append)
  show ?thesis
    unfolding at present_Some
    using subseq_sanitized distinct_sanitized set_sanitized by simp
qed

theorem sanitizeFieldMap_subsequence_witness:
  "(0::nat) < length [map Some [''store'', ''store.id'', ''store.id'']]
   \<and> sanitizeFieldMap 0 [map Some [''store'', ''store.id'', ''store.id'']]
       = (2, [[Some ''store'', Some ''store.id'', Some ''store.id''],
              [None, None, Some ''store.id''], [Some ''store.id'']])
   \<and> subseq [''store.id''] [''store'', ''store.id'', ''store.id'']
   \<and> distinct [''store.id'']
   \<and> sanitized [''store'', ''store.id'', ''store.id''] = [''store.id'']"
proof -
  let ?xs = "[''store'', ''store.id'', ''store.id'']"
  let ?h' = "[[Some ''store'', Some ''store.id'', Some ''store.id''],
              [None, None, Some ''store.id''], [Some ''store.id'']]"
  have a: "(0::nat) < length [map Some ?xs]" by simp
  have b: "[map Some ?xs] ! 0 = map Some ?xs" by simp
  have c: "sanitizeFieldMap 0 [map Some ?xs] = (2, ?h')" by code_simp
  have p: "present (?h' ! 2) = [''store.id'']" by simp
  from sanitizeFieldMap_subsequence[OF a b c] show ?thesis
    unfolding p using a c by simp
qed

lemma dense_map_Some: "None \<notin> set a \<Longrightarrow> a = map Some (map the a)"
  by (induction a) auto

section \<open>The relation map\<close>

lemma set_Object_keys: "set (Object_keys urm) = fst ` set urm"
  by (auto simp: Object_keys_def)

lemma Object_keys_bound:
  "k \<in> set (Object_keys urm) \<Longrightarrow> \<exists>b. map_of urm k = Some b"
  by (simp add: set_Object_keys) (metis domD dom_map_of_conv_image_fst)

lemma getBinding_key:
  "k \<in> set (Object_keys urm) \<Longrightarrow> getBinding urm k = Inr (the (map_of urm k))"
  using Object_keys_bound[of k urm] by (auto simp: getBinding_def)

lemma indexOf_dot_none: "indexOf s ''.'' = - 1 \<longleftrightarrow> CHR ''.'' \<notin> set s"
  using indexOf_dot[of s] by blast

lemma forEach_fold:
  "(\<And>x s. x \<in> set xs \<Longrightarrow> f x s = Inr (g x s)) \<Longrightarrow> forEach f xs s = Inr (fold g xs s)"
  by (induction xs arbitrary: s) simp_all

lemma fold_assign_on_match:
  "fold (\<lambda>x s. if x = p then c else s) xs s = (if p \<in> set xs then c else s)"
  by (induction xs arbitrary: s) simp_all

lemma getSubstitution_plain:
  "CHR ''$'' \<notin> set r \<Longrightarrow> getSubstitution m pre post r = r"
  by (induction m pre post r rule: getSubstitution.induct) auto

lemma replace_prefix:
  "replace (p @ rest) p r = getSubstitution p [] rest r @ rest"
  by (simp add: replace_def indexOf_prefix)

lemma replace_parent:
  "CHR ''$'' \<notin> set r \<Longrightarrow> replace (p @ ''.'' @ leaf) p r = r @ ''.'' @ leaf"
  using replace_prefix[of p "''.'' @ leaf" r] by (simp add: getSubstitution_plain)

lemma replace_parent_nonempty: "replace (p @ ''.'' @ leaf) p r \<noteq> []"
  using replace_prefix[of p "''.'' @ leaf" r] by simp

lemma aliasedOf_nonempty: "CHR ''.'' \<in> set R \<Longrightarrow> aliasedOf urm R \<noteq> []"
proof -
  assume d: "CHR ''.'' \<in> set R"
  from dot_decomp[OF d] obtain p leaf where
    R: "R = p @ ''.'' @ leaf" and l: "CHR ''.'' \<notin> set leaf" by blast
  have b: "beforeLastDot R = p" unfolding R by (rule beforeLastDot_decomp[OF l])
  show ?thesis
  proof (cases "map_of urm p")
    case None
    then show ?thesis using d b R by (simp add: aliasedOf_def)
  next
    case (Some pb)
    have "aliasedOf urm R = replace (p @ ''.'' @ leaf) p (uniqueAlias pb)"
      using d b Some R by (simp add: aliasedOf_def)
    then show ?thesis by (simp only: replace_parent_nonempty not_False_eq_True)
  qed
qed

lemma getAliasedTargetRelation_eq:
  "getAliasedTargetRelation urm R = Inr (aliasedOf urm R)"
proof (cases "CHR ''.'' \<in> set R")
  case False
  then show ?thesis by (simp add: getAliasedTargetRelation_def aliasedOf_def indexOf_dot_none)
next
  case True
  let ?p = "beforeLastDot R"
  let ?c = "replace R ?p (uniqueAlias (the (map_of urm ?p)))"
  have sub: "substr R 0 (lastIndexOf R ''.'') = ?p" by (rule substr_is_beforeLastDot[OF True])
  have loop: "forEach
       (\<lambda>relation targetRel.
          if relation = ?p then
            (case getBinding urm relation of
               Inl e \<Rightarrow> Inl e
             | Inr b \<Rightarrow> Inr (replace R ?p (uniqueAlias b)))
          else Inr targetRel)
       (Object_keys urm) []
     = Inr (fold (\<lambda>x s. if x = ?p then ?c else s) (Object_keys urm) [])"
    by (rule forEach_fold) (auto simp: getBinding_key)
  have res: "getAliasedTargetRelation urm R
      = Inr (let t = (if ?p \<in> set (Object_keys urm) then ?c else []) in if t = [] then R else t)"
    using True
    by (simp add: getAliasedTargetRelation_def indexOf_dot_none sub loop fold_assign_on_match Let_def)
  show ?thesis
  proof (cases "map_of urm ?p")
    case None
    then have "?p \<notin> set (Object_keys urm)"
      using Object_keys_bound[of ?p urm] by auto
    then show ?thesis using res True None by (simp add: aliasedOf_def)
  next
    case (Some pb)
    then have in_keys: "?p \<in> set (Object_keys urm)"
      by (simp add: set_Object_keys) (metis map_of_SomeD fst_conv image_eqI)
    have a: "aliasedOf urm R = ?c" using True Some by (simp add: aliasedOf_def)
    have "?c \<noteq> []" using aliasedOf_nonempty[OF True, of urm] a by simp
    then show ?thesis using res in_keys a by (simp add: Let_def)
  qed
qed

lemma update_fresh: "k \<notin> fst ` set al \<Longrightarrow> AList.update k v al = al @ [(k, v)]"
  by (induction al) auto

lemma relationStep_eq:
  "R \<notin> fst ` set urm \<Longrightarrow>
   relationStep makeId R (urm, n) =
     Inr (if R = ''__proto__'' then urm
          else urm @ [(R, \<lparr>uniqueAlias = makeId n, targetRelation = R,
                            aliasedTargetRelation = aliasedOf urm R\<rparr>)],
          Suc n)"
  by (simp add: relationStep_def getAliasedTargetRelation_eq setBinding_def update_fresh Let_def)

lemma forEach_relationStep:
  "distinct rs \<Longrightarrow> set rs \<inter> fst ` set urm = {} \<Longrightarrow>
   forEach (relationStep makeId) rs (urm, n) = Inr (resolved makeId n urm rs, n + length rs)"
proof (induction rs arbitrary: urm n)
  case Nil
  show ?case by simp
next
  case (Cons R rs)
  let ?urm' = "if R = ''__proto__'' then urm
        else urm @ [(R, \<lparr>uniqueAlias = makeId n, targetRelation = R,
                          aliasedTargetRelation = aliasedOf urm R\<rparr>)]"
  have fresh: "R \<notin> fst ` set urm" using Cons.prems(2) by auto
  have step: "relationStep makeId R (urm, n) = Inr (?urm', Suc n)"
    by (rule relationStep_eq[OF fresh])
  have d: "distinct rs" using Cons.prems(1) by simp
  have "fst ` set ?urm' \<subseteq> insert R (fst ` set urm)" by auto
  then have disj: "set rs \<inter> fst ` set ?urm' = {}"
    using Cons.prems by auto
  have "forEach (relationStep makeId) (R # rs) (urm, n)
      = forEach (relationStep makeId) rs (?urm', Suc n)"
    by (simp only: forEach.simps step sum.case)
  also have "\<dots> = Inr (resolved makeId (Suc n) ?urm' rs, Suc n + length rs)"
    by (rule Cons.IH[OF d disj])
  finally show ?case by simp
qed

lemma getRelationMap_distinct: "distinct (getRelationMap fieldMap)"
  by (simp only: getRelationMap_closed_form distinct_firstSeen)

lemma getUniqueRelationMap_eq:
  "getUniqueRelationMap makeId fieldMap = Inr (resolved makeId 0 [] (getRelationMap fieldMap))"
proof -
  have "forEach (relationStep makeId) (getRelationMap fieldMap) ([], 0)
      = Inr (resolved makeId 0 [] (getRelationMap fieldMap), 0 + length (getRelationMap fieldMap))"
    by (rule forEach_relationStep[OF getRelationMap_distinct]) simp
  then show ?thesis by (simp add: getUniqueRelationMap_def)
qed

lemma keys_resolved:
  "map fst (resolved makeId n urm rs) = map fst urm @ filter (\<lambda>R. R \<noteq> ''__proto__'') rs"
  by (induction rs arbitrary: urm n) simp_all

lemma chained_append:
  "chained e (l @ l') \<longleftrightarrow> chained e l \<and> chained (e @ l) l'"
  by (induction l arbitrary: e) auto

lemma chained_resolved:
  "chained [] urm \<Longrightarrow> chained [] (resolved makeId n urm rs)"
proof (induction rs arbitrary: urm n)
  case Nil
  then show ?case by simp
next
  case (Cons R rs)
  show ?case
  proof (cases "R = ''__proto__''")
    case True
    then show ?thesis using Cons by simp
  next
    case False
    let ?e = "(R, \<lparr>uniqueAlias = makeId n, targetRelation = R,
                    aliasedTargetRelation = aliasedOf urm R\<rparr>)"
    have "chained [] (urm @ [?e])"
      using Cons.prems by (simp add: chained_append)
    from Cons.IH[OF this] show ?thesis using False by simp
  qed
qed

lemma aliases_resolved:
  "\<exists>ns. map (\<lambda>e. uniqueAlias (snd e)) (resolved makeId n urm rs)
          = map (\<lambda>e. uniqueAlias (snd e)) urm @ map makeId ns
        \<and> sorted_wrt (<) ns \<and> set ns \<subseteq> {n..<n + length rs}"
proof (induction rs arbitrary: urm n)
  case Nil
  show ?case by (intro exI[of _ "[]"]) simp
next
  case (Cons R rs)
  let ?urm' = "if R = ''__proto__'' then urm
        else urm @ [(R, \<lparr>uniqueAlias = makeId n, targetRelation = R,
                          aliasedTargetRelation = aliasedOf urm R\<rparr>)]"
  from Cons.IH[where urm = ?urm' and n = "Suc n"] obtain ns where
    ns: "map (\<lambda>e. uniqueAlias (snd e)) (resolved makeId (Suc n) ?urm' rs)
          = map (\<lambda>e. uniqueAlias (snd e)) ?urm' @ map makeId ns"
      "sorted_wrt (<) ns" "set ns \<subseteq> {Suc n..<Suc n + length rs}" by blast
  show ?case
  proof (cases "R = ''__proto__''")
    case True
    with ns show ?thesis by (intro exI[of _ ns]) auto
  next
    case False
    with ns show ?thesis by (intro exI[of _ "n # ns"]) auto
  qed
qed

lemma chained_entry:
  "chained [] urm \<Longrightarrow> urm = earlier @ e # later \<Longrightarrow>
   targetRelation (snd e) = fst e \<and> aliasedTargetRelation (snd e) = aliasedOf earlier (fst e)"
  by (simp add: chained_append)

lemma chained_result:
  "getUniqueRelationMap makeId fieldMap = Inr urm \<Longrightarrow> chained [] urm"
  using chained_resolved[of "[]" makeId 0 "getRelationMap fieldMap"]
  by (simp add: getUniqueRelationMap_eq)

lemma keys_result:
  "getUniqueRelationMap makeId fieldMap = Inr urm \<Longrightarrow>
   map fst urm = filter (\<lambda>R. R \<noteq> ''__proto__'') (getRelationMap fieldMap)"
  using keys_resolved[of makeId 0 "[]" "getRelationMap fieldMap"]
  by (simp add: getUniqueRelationMap_eq)

lemma distinct_keys_result:
  "getUniqueRelationMap makeId fieldMap = Inr urm \<Longrightarrow> distinct (map fst urm)"
  by (simp add: keys_result getRelationMap_distinct)

lemma aliases_result:
  assumes "getUniqueRelationMap makeId fieldMap = Inr urm"
  shows "\<exists>ns. aliases urm = map makeId ns \<and> sorted_wrt (<) ns
           \<and> set ns \<subseteq> {..<length (getRelationMap fieldMap)}"
proof -
  from aliases_resolved[of makeId 0 "[]" "getRelationMap fieldMap"] obtain ns where
    ns: "aliases (resolved makeId 0 [] (getRelationMap fieldMap)) = map makeId ns"
      "sorted_wrt (<) ns" "set ns \<subseteq> {..<length (getRelationMap fieldMap)}"
    unfolding aliases_def by (auto simp: lessThan_atLeast0)
  with assms show ?thesis
    by (intro exI[of _ ns]) (simp add: getUniqueRelationMap_eq)
qed

text \<open>
  Claim C1, amended.  The aliases of the bindings are tokens of the generator, taken
  in the order of the calls, and nothing compares them: when the tokens returned
  during one call of \<open>getUniqueRelationMap\<close> (one per relation path) are pairwise
  distinct, the \<open>uniqueAlias\<close> values of the returned map are pairwise distinct.  For
  an arbitrary output stream they need not be: a generator that repeats a token
  gives two bindings the same alias.
\<close>

theorem aliases_distinct_for_distinct_tokens:
  assumes "getUniqueRelationMap makeId fieldMap = Inr urm"
    and "inj_on makeId {..<length (getRelationMap fieldMap)}"
  shows "distinct (aliases urm)"
proof -
  from aliases_result[OF assms(1)] obtain ns where
    ns: "aliases urm = map makeId ns" "sorted_wrt (<) ns"
      "set ns \<subseteq> {..<length (getRelationMap fieldMap)}" by blast
  have "distinct ns" using ns(2) by (simp add: strict_sorted_iff)
  moreover have "inj_on makeId (set ns)" by (rule inj_on_subset[OF assms(2) ns(3)])
  ultimately show ?thesis unfolding ns(1) by (simp add: distinct_map)
qed

lemma injective_countingIds: "inj_on countingIds A"
proof (rule inj_onI)
  fix x y assume "countingIds x = countingIds y"
  then have "length (countingIds x) = length (countingIds y)" by simp
  then show "x = y" by (simp add: countingIds_def)
qed

lemma example_relations:
  "getRelationMap [''a.x'', ''b.y''] = [''a'', ''b'']"
  by code_simp

text \<open>
  With the generator that returns the token \<open>aaaaa\<close> at every call, the paths \<open>a.x\<close>
  and \<open>b.y\<close> give the two relations \<open>a\<close> and \<open>b\<close> the same alias.
\<close>

theorem aliases_distinct_counterexample:
  "getUniqueRelationMap constantIds [''a.x'', ''b.y'']
     = Inr [(''a'', \<lparr>uniqueAlias = ''aaaaa'', targetRelation = ''a'', aliasedTargetRelation = ''a''\<rparr>),
            (''b'', \<lparr>uniqueAlias = ''aaaaa'', targetRelation = ''b'', aliasedTargetRelation = ''b''\<rparr>)]
   \<and> \<not> distinct (aliases
       [(''a'', \<lparr>uniqueAlias = ''aaaaa'', targetRelation = ''a'', aliasedTargetRelation = ''a''\<rparr>),
        (''b'', \<lparr>uniqueAlias = ''aaaaa'', targetRelation = ''b'', aliasedTargetRelation = ''b''\<rparr>)])"
  by (simp add: getUniqueRelationMap_eq example_relations aliasedOf_def constantIds_def aliases_def)

theorem aliases_distinct_for_distinct_tokens_witness:
  "getUniqueRelationMap countingIds [''a.x'', ''b.y'']
     = Inr [(''a'', \<lparr>uniqueAlias = ''a'', targetRelation = ''a'', aliasedTargetRelation = ''a''\<rparr>),
            (''b'', \<lparr>uniqueAlias = ''aa'', targetRelation = ''b'', aliasedTargetRelation = ''b''\<rparr>)]
   \<and> inj_on countingIds {..<length (getRelationMap [''a.x'', ''b.y''])}
   \<and> distinct (aliases
       [(''a'', \<lparr>uniqueAlias = ''a'', targetRelation = ''a'', aliasedTargetRelation = ''a''\<rparr>),
        (''b'', \<lparr>uniqueAlias = ''aa'', targetRelation = ''b'', aliasedTargetRelation = ''b''\<rparr>)])"
proof -
  have r: "getUniqueRelationMap countingIds [''a.x'', ''b.y'']
     = Inr [(''a'', \<lparr>uniqueAlias = ''a'', targetRelation = ''a'', aliasedTargetRelation = ''a''\<rparr>),
            (''b'', \<lparr>uniqueAlias = ''aa'', targetRelation = ''b'', aliasedTargetRelation = ''b''\<rparr>)]"
    by (simp add: getUniqueRelationMap_eq example_relations aliasedOf_def countingIds_def)
  have i: "inj_on countingIds {..<length (getRelationMap [''a.x'', ''b.y''])}"
    by (rule injective_countingIds)
  from aliases_distinct_for_distinct_tokens[OF r i] r i show ?thesis by (intro conjI)
qed

lemma example_relations4:
  "getRelationMap [''store.name'', ''store.location.streetName'', ''store.id'',
                   ''store.location.city''] = [''store'', ''store.location'']"
  by code_simp

lemma alias_is_token:
  assumes "getUniqueRelationMap makeId fieldMap = Inr urm" and "e \<in> set urm"
  shows "\<exists>n. uniqueAlias (snd e) = makeId n"
proof -
  from aliases_result[OF assms(1)] obtain ns where ns: "aliases urm = map makeId ns" by blast
  have "uniqueAlias (snd e) \<in> set (aliases urm)" using assms(2) by (auto simp: aliases_def)
  then show ?thesis unfolding ns by auto
qed

lemma aliasedOf_parent:
  assumes l: "CHR ''.'' \<notin> set leaf" and p: "map_of earlier parent = Some pb"
    and d: "CHR ''$'' \<notin> set (uniqueAlias pb)"
  shows "aliasedOf earlier (parent @ ''.'' @ leaf) = uniqueAlias pb @ ''.'' @ leaf"
proof -
  have b: "beforeLastDot (parent @ ''.'' @ leaf) = parent" by (rule beforeLastDot_decomp[OF l])
  have "aliasedOf earlier (parent @ ''.'' @ leaf)
      = replace (parent @ ''.'' @ leaf) parent (uniqueAlias pb)"
    unfolding aliasedOf_def b using p by simp
  then show ?thesis by (simp only: replace_parent[OF d])
qed

lemma aliasedOf_no_parent:
  assumes l: "CHR ''.'' \<notin> set leaf" and p: "parent \<notin> fst ` set earlier"
  shows "aliasedOf earlier (parent @ ''.'' @ leaf) = parent @ ''.'' @ leaf"
proof -
  have b: "beforeLastDot (parent @ ''.'' @ leaf) = parent" by (rule beforeLastDot_decomp[OF l])
  have "map_of earlier parent = None" using p by (simp add: map_of_eq_None_iff)
  then show ?thesis unfolding aliasedOf_def b by simp
qed

text \<open>
  Claim C4.  In a map returned by \<open>getUniqueRelationMap\<close> (the tokens of the generator
  being alphanumeric, so free of the \<open>$\<close> that \<open>replace\<close> expands) every binding's
  \<open>targetRelation\<close> is its key; and for a key \<open>parent.leaf\<close>, with no dot in \<open>leaf\<close>,
  whose parent is the key of an earlier entry, \<open>aliasedTargetRelation\<close> is the parent's
  \<open>uniqueAlias\<close> followed by \<open>.leaf\<close>.  For the four paths of the test the map has
  the two keys \<open>store\<close> and \<open>store.location\<close>.
\<close>

theorem bindings_keyed_and_chained:
  assumes run: "getUniqueRelationMap makeId fieldMap = Inr urm"
    and tokens: "\<forall>n. CHR ''$'' \<notin> set (makeId n)"
  shows "(\<forall>e \<in> set urm. targetRelation (snd e) = fst e)
       \<and> (\<forall>earlier R b later parent leaf pb.
            urm = earlier @ (R, b) # later \<and> R = parent @ ''.'' @ leaf
            \<and> CHR ''.'' \<notin> set leaf \<and> map_of earlier parent = Some pb
            \<longrightarrow> aliasedTargetRelation b = uniqueAlias pb @ ''.'' @ leaf
                \<and> prefix (uniqueAlias pb @ ''.'') (aliasedTargetRelation b))
       \<and> (\<exists>u. getUniqueRelationMap makeId
                  [''store.name'', ''store.location.streetName'', ''store.id'',
                   ''store.location.city''] = Inr u
              \<and> map fst u = [''store'', ''store.location''] \<and> length u = 2)"
proof (intro conjI ballI allI impI)
  fix e assume e: "e \<in> set urm"
  then obtain earlier later where "urm = earlier @ e # later" by (auto simp: in_set_conv_decomp)
  from chained_entry[OF chained_result[OF run] this]
  show "targetRelation (snd e) = fst e" by simp
next
  fix earlier R b later parent leaf pb
  assume a: "urm = earlier @ (R, b) # later \<and> R = parent @ ''.'' @ leaf
            \<and> CHR ''.'' \<notin> set leaf \<and> map_of earlier parent = Some pb"
  then have split: "urm = earlier @ (R, b) # later" and R: "R = parent @ ''.'' @ leaf"
    and l: "CHR ''.'' \<notin> set leaf" and p: "map_of earlier parent = Some pb" by simp_all
  have "(parent, pb) \<in> set urm" using map_of_SomeD[OF p] split by simp
  from alias_is_token[OF run this] tokens have d: "CHR ''$'' \<notin> set (uniqueAlias pb)" by auto
  from chained_entry[OF chained_result[OF run] split]
  have "aliasedTargetRelation b = aliasedOf earlier R" by simp
  then have eq: "aliasedTargetRelation b = uniqueAlias pb @ ''.'' @ leaf"
    unfolding R by (simp only: aliasedOf_parent[OF l p d])
  show "aliasedTargetRelation b = uniqueAlias pb @ ''.'' @ leaf" by (rule eq)
  show "prefix (uniqueAlias pb @ ''.'') (aliasedTargetRelation b)" unfolding eq by simp
next
  show "\<exists>u. getUniqueRelationMap makeId
                  [''store.name'', ''store.location.streetName'', ''store.id'',
                   ''store.location.city''] = Inr u
              \<and> map fst u = [''store'', ''store.location''] \<and> length u = 2"
    by (simp add: getUniqueRelationMap_eq example_relations4)
qed

lemma countingIds_plain: "\<forall>n. CHR ''$'' \<notin> set (countingIds n)"
  by (simp add: countingIds_def)

theorem bindings_keyed_and_chained_witness:
  "getUniqueRelationMap countingIds
     [''store.name'', ''store.location.streetName'', ''store.id'', ''store.location.city'']
     = Inr [(''store'', \<lparr>uniqueAlias = ''a'', targetRelation = ''store'',
                          aliasedTargetRelation = ''store''\<rparr>),
            (''store.location'', \<lparr>uniqueAlias = ''aa'', targetRelation = ''store.location'',
                          aliasedTargetRelation = ''a.location''\<rparr>)]
   \<and> (\<forall>n. CHR ''$'' \<notin> set (countingIds n))
   \<and> aliasedTargetRelation \<lparr>uniqueAlias = ''aa'', targetRelation = ''store.location'',
                          aliasedTargetRelation = ''a.location''\<rparr>
       = uniqueAlias \<lparr>uniqueAlias = ''a'', targetRelation = ''store'',
                          aliasedTargetRelation = ''store''\<rparr> @ ''.'' @ ''location''"
proof -
  let ?fm = "[''store.name'', ''store.location.streetName'', ''store.id'', ''store.location.city'']"
  let ?pb = "\<lparr>uniqueAlias = ''a'', targetRelation = ''store'', aliasedTargetRelation = ''store''\<rparr>"
  let ?b = "\<lparr>uniqueAlias = ''aa'', targetRelation = ''store.location'',
             aliasedTargetRelation = ''a.location''\<rparr>"
  have bld: "beforeLastDot ''store.location'' = ''store''"
    using beforeLastDot_decomp[of "''location''" "''store''"] by simp
  have rep: "replace ''store.location'' ''store'' ''a'' = ''a.location''"
    using replace_parent[of "''a''" "''store''" "''location''"] by simp
  have run: "getUniqueRelationMap countingIds ?fm
      = Inr [(''store'', ?pb), (''store.location'', ?b)]"
    by (simp add: getUniqueRelationMap_eq example_relations4 aliasedOf_def countingIds_def bld rep)
  have hyp: "[(''store'', ?pb), (''store.location'', ?b)] = [(''store'', ?pb)] @ (''store.location'', ?b) # []
      \<and> ''store.location'' = ''store'' @ ''.'' @ ''location''
      \<and> CHR ''.'' \<notin> set ''location'' \<and> map_of [(''store'', ?pb)] ''store'' = Some ?pb"
    by simp
  from bindings_keyed_and_chained[OF run countingIds_plain]
  have "\<forall>earlier R b later parent leaf pb.
            [(''store'', ?pb), (''store.location'', ?b)] = earlier @ (R, b) # later
            \<and> R = parent @ ''.'' @ leaf
            \<and> CHR ''.'' \<notin> set leaf \<and> map_of earlier parent = Some pb
            \<longrightarrow> aliasedTargetRelation b = uniqueAlias pb @ ''.'' @ leaf
                \<and> prefix (uniqueAlias pb @ ''.'') (aliasedTargetRelation b)"
    by (rule conjunct1[OF conjunct2])
  from this[rule_format, OF hyp]
  have "aliasedTargetRelation ?b = uniqueAlias ?pb @ ''.'' @ ''location''"
    by (rule conjunct1)
  with run countingIds_plain show ?thesis by (intro conjI)
qed

lemma entry_at:
  assumes "getUniqueRelationMap makeId fieldMap = Inr urm" and "i < length urm"
  shows "targetRelation (snd (urm ! i)) = fst (urm ! i)
       \<and> aliasedTargetRelation (snd (urm ! i)) = aliasedOf (take i urm) (fst (urm ! i))"
  using chained_entry[OF chained_result[OF assms(1)] id_take_nth_drop[OF assms(2)]] .

lemma map_of_take_nth:
  assumes d: "distinct (map fst urm)" and j: "j < i" and i: "i \<le> length urm"
  shows "map_of (take i urm) (fst (urm ! j)) = Some (snd (urm ! j))"
proof -
  have "distinct (map fst (take i urm))" using d by (simp add: take_map[symmetric] distinct_take)
  moreover have "(fst (urm ! j), snd (urm ! j)) \<in> set (take i urm)"
    using j i by (auto simp: in_set_conv_nth intro!: exI[of _ j])
  ultimately show ?thesis by (rule map_of_is_SomeI)
qed

lemma key_position:
  assumes "k \<in> fst ` set (take i urm)"
  shows "\<exists>j<i. j < length urm \<and> fst (urm ! j) = k"
proof -
  from assms obtain e where "e \<in> set (take i urm)" "fst e = k" by auto
  then obtain j where "j < length (take i urm)" "take i urm ! j = e"
    by (auto simp: in_set_conv_nth)
  then show ?thesis using \<open>fst e = k\<close> by (intro exI[of _ j]) auto
qed

text \<open>
  Claim C9.  Two runs of \<open>getUniqueRelationMap\<close> on the same input, under any two
  output streams of the generator, give maps with the same keys in the same order
  (in creation order and in the order of \<open>Object.keys\<close>) and the same \<open>targetRelation\<close>
  values; and at every position either both runs leave \<open>aliasedTargetRelation\<close> equal
  to \<open>targetRelation\<close>, or both replace the same parent prefix, the key of the same
  earlier position, by the \<open>uniqueAlias\<close> their own run gave that parent.
\<close>

theorem structure_independent_of_tokens:
  assumes r1: "getUniqueRelationMap makeId1 fieldMap = Inr urm1"
    and r2: "getUniqueRelationMap makeId2 fieldMap = Inr urm2"
  shows "map fst urm1 = map fst urm2
       \<and> Object_keys urm1 = Object_keys urm2
       \<and> map (\<lambda>e. targetRelation (snd e)) urm1 = map (\<lambda>e. targetRelation (snd e)) urm2
       \<and> (\<forall>i<length urm1.
            (aliasedTargetRelation (snd (urm1 ! i)) = targetRelation (snd (urm1 ! i))
             \<and> aliasedTargetRelation (snd (urm2 ! i)) = targetRelation (snd (urm2 ! i)))
            \<or> (\<exists>j<i. fst (urm1 ! j) = beforeLastDot (fst (urm1 ! i))
                 \<and> aliasedTargetRelation (snd (urm1 ! i))
                     = replace (fst (urm1 ! i)) (fst (urm1 ! j)) (uniqueAlias (snd (urm1 ! j)))
                 \<and> aliasedTargetRelation (snd (urm2 ! i))
                     = replace (fst (urm2 ! i)) (fst (urm2 ! j)) (uniqueAlias (snd (urm2 ! j)))))"
proof (intro conjI allI impI)
  show keys: "map fst urm1 = map fst urm2"
    by (simp only: keys_result[OF r1] keys_result[OF r2])
  then show "Object_keys urm1 = Object_keys urm2" by (simp add: Object_keys_def)
  have len: "length urm1 = length urm2" using keys by (rule map_eq_imp_length_eq)
  have key_eq: "fst (urm1 ! i) = fst (urm2 ! i)" if "i < length urm1" for i
    using that keys len by (metis nth_map)
  show "map (\<lambda>e. targetRelation (snd e)) urm1 = map (\<lambda>e. targetRelation (snd e)) urm2"
  proof (rule nth_equalityI)
    show "length (map (\<lambda>e. targetRelation (snd e)) urm1)
        = length (map (\<lambda>e. targetRelation (snd e)) urm2)" using len by simp
  next
    fix i assume "i < length (map (\<lambda>e. targetRelation (snd e)) urm1)"
    then have i: "i < length urm1" by simp
    with len have i2: "i < length urm2" by simp
    show "map (\<lambda>e. targetRelation (snd e)) urm1 ! i = map (\<lambda>e. targetRelation (snd e)) urm2 ! i"
      using entry_at[OF r1 i] entry_at[OF r2 i2] key_eq[OF i] i i2 by simp
  qed
  fix i assume i: "i < length urm1"
  with len have i2: "i < length urm2" by simp
  let ?R = "fst (urm1 ! i)"
  let ?p = "beforeLastDot ?R"
  have R2: "fst (urm2 ! i) = ?R" using key_eq[OF i] by simp
  have e1: "targetRelation (snd (urm1 ! i)) = ?R"
    "aliasedTargetRelation (snd (urm1 ! i)) = aliasedOf (take i urm1) ?R"
    using entry_at[OF r1 i] by simp_all
  have e2: "targetRelation (snd (urm2 ! i)) = ?R"
    "aliasedTargetRelation (snd (urm2 ! i)) = aliasedOf (take i urm2) ?R"
    using entry_at[OF r2 i2] R2 by simp_all
  have tk: "fst ` set (take i urm1) = fst ` set (take i urm2)"
  proof -
    have "map fst (take i urm1) = map fst (take i urm2)"
      using keys by (simp add: take_map[symmetric])
    then have "set (map fst (take i urm1)) = set (map fst (take i urm2))" by simp
    then show ?thesis by simp
  qed
  show "(aliasedTargetRelation (snd (urm1 ! i)) = targetRelation (snd (urm1 ! i))
             \<and> aliasedTargetRelation (snd (urm2 ! i)) = targetRelation (snd (urm2 ! i)))
            \<or> (\<exists>j<i. fst (urm1 ! j) = beforeLastDot (fst (urm1 ! i))
                 \<and> aliasedTargetRelation (snd (urm1 ! i))
                     = replace (fst (urm1 ! i)) (fst (urm1 ! j)) (uniqueAlias (snd (urm1 ! j)))
                 \<and> aliasedTargetRelation (snd (urm2 ! i))
                     = replace (fst (urm2 ! i)) (fst (urm2 ! j)) (uniqueAlias (snd (urm2 ! j))))"
  proof (cases "CHR ''.'' \<in> set ?R \<and> ?p \<in> fst ` set (take i urm1)")
    case False
    then have "aliasedOf (take i urm1) ?R = ?R" "aliasedOf (take i urm2) ?R = ?R"
      using tk by (auto simp: aliasedOf_def map_of_eq_None_iff[THEN iffD2])
    then show ?thesis using e1 e2 by simp
  next
    case True
    then have dot: "CHR ''.'' \<in> set ?R" and inp: "?p \<in> fst ` set (take i urm1)" by simp_all
    from key_position[OF inp] obtain j where j: "j < i" "j < length urm1" "fst (urm1 ! j) = ?p"
      by blast
    have j2: "fst (urm2 ! j) = ?p" using key_eq[OF j(2)] j(3) by simp
    have m1: "map_of (take i urm1) ?p = Some (snd (urm1 ! j))"
      using map_of_take_nth[OF distinct_keys_result[OF r1] j(1)] i j(3) by simp
    have m2: "map_of (take i urm2) ?p = Some (snd (urm2 ! j))"
      using map_of_take_nth[OF distinct_keys_result[OF r2] j(1)] i2 j2 by simp
    have a1: "aliasedTargetRelation (snd (urm1 ! i))
        = replace ?R (fst (urm1 ! j)) (uniqueAlias (snd (urm1 ! j)))"
      unfolding e1(2) aliasedOf_def using dot m1 j(3) by simp
    have a2: "aliasedTargetRelation (snd (urm2 ! i))
        = replace (fst (urm2 ! i)) (fst (urm2 ! j)) (uniqueAlias (snd (urm2 ! j)))"
      unfolding e2(2) aliasedOf_def R2 using dot m2 j2 by simp
    show ?thesis using j(1,3) a1 a2 by blast
  qed
qed

theorem structure_independent_of_tokens_witness:
  "getUniqueRelationMap countingIds
     [''store.name'', ''store.location.streetName'', ''store.id'', ''store.location.city'']
     = Inr [(''store'', \<lparr>uniqueAlias = ''a'', targetRelation = ''store'',
                          aliasedTargetRelation = ''store''\<rparr>),
            (''store.location'', \<lparr>uniqueAlias = ''aa'', targetRelation = ''store.location'',
                          aliasedTargetRelation = ''a.location''\<rparr>)]
   \<and> getUniqueRelationMap constantIds
     [''store.name'', ''store.location.streetName'', ''store.id'', ''store.location.city'']
     = Inr [(''store'', \<lparr>uniqueAlias = ''aaaaa'', targetRelation = ''store'',
                          aliasedTargetRelation = ''store''\<rparr>),
            (''store.location'', \<lparr>uniqueAlias = ''aaaaa'', targetRelation = ''store.location'',
                          aliasedTargetRelation = ''aaaaa.location''\<rparr>)]
   \<and> Object_keys [(''store'', \<lparr>uniqueAlias = ''a'', targetRelation = ''store'',
                          aliasedTargetRelation = ''store''\<rparr>),
            (''store.location'', \<lparr>uniqueAlias = ''aa'', targetRelation = ''store.location'',
                          aliasedTargetRelation = ''a.location''\<rparr>)]
     = Object_keys [(''store'', \<lparr>uniqueAlias = ''aaaaa'', targetRelation = ''store'',
                          aliasedTargetRelation = ''store''\<rparr>),
            (''store.location'', \<lparr>uniqueAlias = ''aaaaa'', targetRelation = ''store.location'',
                          aliasedTargetRelation = ''aaaaa.location''\<rparr>)]"
proof -
  let ?fm = "[''store.name'', ''store.location.streetName'', ''store.id'', ''store.location.city'']"
  have bld: "beforeLastDot ''store.location'' = ''store''"
    using beforeLastDot_decomp[of "''location''" "''store''"] by simp
  have rep: "replace ''store.location'' ''store'' r = r @ ''.location''" if "CHR ''$'' \<notin> set r" for r
    using replace_parent[OF that, of "''store''" "''location''"] by simp
  have run1: "getUniqueRelationMap countingIds ?fm
     = Inr [(''store'', \<lparr>uniqueAlias = ''a'', targetRelation = ''store'',
                          aliasedTargetRelation = ''store''\<rparr>),
            (''store.location'', \<lparr>uniqueAlias = ''aa'', targetRelation = ''store.location'',
                          aliasedTargetRelation = ''a.location''\<rparr>)]"
    by (simp add: getUniqueRelationMap_eq example_relations4 aliasedOf_def countingIds_def bld rep)
  have run2: "getUniqueRelationMap constantIds ?fm
     = Inr [(''store'', \<lparr>uniqueAlias = ''aaaaa'', targetRelation = ''store'',
                          aliasedTargetRelation = ''store''\<rparr>),
            (''store.location'', \<lparr>uniqueAlias = ''aaaaa'', targetRelation = ''store.location'',
                          aliasedTargetRelation = ''aaaaa.location''\<rparr>)]"
    by (simp add: getUniqueRelationMap_eq example_relations4 aliasedOf_def constantIds_def bld rep)
  from structure_independent_of_tokens[OF run1 run2]
  have "Object_keys [(''store'', \<lparr>uniqueAlias = ''a'', targetRelation = ''store'',
                          aliasedTargetRelation = ''store''\<rparr>),
            (''store.location'', \<lparr>uniqueAlias = ''aa'', targetRelation = ''store.location'',
                          aliasedTargetRelation = ''a.location''\<rparr>)]
     = Object_keys [(''store'', \<lparr>uniqueAlias = ''aaaaa'', targetRelation = ''store'',
                          aliasedTargetRelation = ''store''\<rparr>),
            (''store.location'', \<lparr>uniqueAlias = ''aaaaa'', targetRelation = ''store.location'',
                          aliasedTargetRelation = ''aaaaa.location''\<rparr>)]"
    by (rule conjunct1[OF conjunct2])
  with run1 run2 show ?thesis by (intro conjI)
qed

section \<open>Joins and projection\<close>

lemma map_insort_key:
  "map f (insort_key (\<lambda>e. g (f e)) x xs) = insort_key g (f x) (map f xs)"
  by (induction xs) simp_all

lemma map_sort_key: "map f (sort_key (\<lambda>e. g (f e)) xs) = sort_key g (map f xs)"
  by (induction xs) (simp_all add: map_insort_key)

lemma keys_ownEntries: "map fst (ownEntries urm) = Object_keys urm"
  by (simp add: ownEntries_def Object_keys_def map_sort_key filter_map comp_def)

lemma mset_ownEntries: "mset (ownEntries urm) = mset urm"
  by (simp add: ownEntries_def)

lemma set_ownEntries: "set (ownEntries urm) = set urm"
  by (auto simp: ownEntries_def)

lemma ownEntries_plain:
  "\<forall>e \<in> set urm. \<not> isArrayIndex (fst e) \<Longrightarrow> ownEntries urm = urm"
  by (simp add: ownEntries_def)

lemma ownEntries_lookup:
  "distinct (map fst urm) \<Longrightarrow> e \<in> set (ownEntries urm) \<Longrightarrow> map_of urm (fst e) = Some (snd e)"
  by (simp add: set_ownEntries)

lemma leftJoinAndSelect_alias: "alias' (leftJoinAndSelect t a q) = alias' q"
  by (simp add: leftJoinAndSelect_def)

lemma forEach_join:
  "set ks \<subseteq> fst ` set urm \<Longrightarrow>
   forEach
     (\<lambda>relation q.
        case getBinding urm relation of
          Inl e \<Rightarrow> Inl e
        | Inr b \<Rightarrow>
            if indexOf relation ''.'' = - 1
            then Inr (leftJoinAndSelect (alias' q @ targetRelation b) (uniqueAlias b) q)
            else Inr (leftJoinAndSelect (aliasedTargetRelation b) (uniqueAlias b) q))
     ks query
   = Inr (query\<lparr>joins := joins query
            @ map (\<lambda>k. joinOf (alias' query) (k, the (map_of urm k))) ks\<rparr>)"
proof (induction ks arbitrary: query)
  case Nil
  show ?case by simp
next
  case (Cons k ks)
  then have "k \<in> set (Object_keys urm)" by (simp add: set_Object_keys)
  then have b: "getBinding urm k = Inr (the (map_of urm k))" by (rule getBinding_key)
  have ks: "set ks \<subseteq> fst ` set urm" using Cons.prems by simp
  show ?case
    by (simp add: b Cons.IH[OF ks] indexOf_dot_none joinOf_def leftJoinAndSelect_def)
qed

lemma joinRelationsToQuery_keys:
  "joinRelationsToQuery urm query
   = Inr (query\<lparr>joins := joins query
            @ map (\<lambda>k. joinOf (alias' query) (k, the (map_of urm k))) (Object_keys urm)\<rparr>)"
  unfolding joinRelationsToQuery_def by (rule forEach_join) (simp add: set_Object_keys)

lemma joins_in_key_order:
  assumes "distinct (map fst urm)"
  shows "map (\<lambda>k. joinOf a (k, the (map_of urm k))) (Object_keys urm)
       = map (joinOf a) (ownEntries urm)"
proof -
  have "map (\<lambda>k. joinOf a (k, the (map_of urm k))) (Object_keys urm)
      = map (\<lambda>e. joinOf a (fst e, the (map_of urm (fst e)))) (ownEntries urm)"
    by (simp add: keys_ownEntries[symmetric] comp_def)
  also have "\<dots> = map (joinOf a) (ownEntries urm)"
    by (rule map_cong) (simp_all add: ownEntries_lookup[OF assms])
  finally show ?thesis .
qed

text \<open>
  Claim C5.  \<open>joinRelationsToQuery\<close> calls \<open>leftJoinAndSelect\<close> once for every binding of
  the map, in the order of \<open>Object.keys\<close>, which is the order of creation when no key
  is an array index: for a key without a dot the target is the root alias followed
  directly by the binding's \<open>targetRelation\<close>, for a key with a dot it is the binding's
  \<open>aliasedTargetRelation\<close>; the alias of the join is the binding's \<open>uniqueAlias\<close>.
\<close>

theorem joins_one_per_binding:
  assumes "distinct (map fst urm)"
  shows "joinRelationsToQuery urm query
           = Inr (query\<lparr>joins := joins query @ map (joinOf (alias' query)) (ownEntries urm)\<rparr>)
       \<and> mset (ownEntries urm) = mset urm
       \<and> map fst (ownEntries urm) = Object_keys urm
       \<and> ((\<forall>e \<in> set urm. \<not> isArrayIndex (fst e)) \<longrightarrow> ownEntries urm = urm)"
  using assms
  by (simp add: joinRelationsToQuery_keys joins_in_key_order mset_ownEntries keys_ownEntries
      ownEntries_plain)

theorem joins_one_per_binding_witness:
  "distinct (map fst
     [(''store'', \<lparr>uniqueAlias = ''a'', targetRelation = ''store'',
                   aliasedTargetRelation = ''store''\<rparr>),
      (''store.location'', \<lparr>uniqueAlias = ''aa'', targetRelation = ''store.location'',
                   aliasedTargetRelation = ''a.location''\<rparr>)])
   \<and> joinRelationsToQuery
     [(''store'', \<lparr>uniqueAlias = ''a'', targetRelation = ''store'',
                   aliasedTargetRelation = ''store''\<rparr>),
      (''store.location'', \<lparr>uniqueAlias = ''aa'', targetRelation = ''store.location'',
                   aliasedTargetRelation = ''a.location''\<rparr>)]
     \<lparr>alias' = ''root'', joins = [], selects = []\<rparr>
     = Inr \<lparr>alias' = ''root'', joins = [(''rootstore'', ''a''), (''a.location'', ''aa'')],
            selects = []\<rparr>"
proof -
  let ?U = "[(''store'', \<lparr>uniqueAlias = ''a'', targetRelation = ''store'',
                   aliasedTargetRelation = ''store''\<rparr>),
      (''store.location'', \<lparr>uniqueAlias = ''aa'', targetRelation = ''store.location'',
                   aliasedTargetRelation = ''a.location''\<rparr>)]"
  have d: "distinct (map fst ?U)" by simp
  have o: "ownEntries ?U = ?U" by code_simp
  from joins_one_per_binding[OF d, of "\<lparr>alias' = ''root'', joins = [], selects = []\<rparr>"]
  have "joinRelationsToQuery ?U \<lparr>alias' = ''root'', joins = [], selects = []\<rparr>
      = Inr (\<lparr>alias' = ''root'', joins = [], selects = []\<rparr>
               \<lparr>joins := joins \<lparr>alias' = ''root'', joins = [], selects = []\<rparr>
                  @ map (joinOf (alias' \<lparr>alias' = ''root'', joins = [], selects = []\<rparr>))
                      (ownEntries ?U)\<rparr>)"
    by (rule conjunct1)
  then have "joinRelationsToQuery ?U \<lparr>alias' = ''root'', joins = [], selects = []\<rparr>
     = Inr \<lparr>alias' = ''root'', joins = [(''rootstore'', ''a''), (''a.location'', ''aa'')],
            selects = []\<rparr>"
    unfolding o by (simp add: joinOf_def)
  with d show ?thesis by (intro conjI)
qed

lemma replace_plain:
  assumes "CHR ''$'' \<notin> set r"
  shows "replace s pat r = replaceFirst s pat r"
proof (induction s)
  case Nil
  show ?case by (simp add: replace_def getSubstitution_plain[OF assms])
next
  case (Cons c s)
  show ?case
  proof (cases "prefix pat (c # s)")
    case True
    then show ?thesis by (simp add: replace_def getSubstitution_plain[OF assms])
  next
    case False
    show ?thesis
    proof (cases "indexOf s pat = - 1")
      case True
      with False Cons show ?thesis by (simp add: replace_def Let_def)
    next
      case nf: False
      with indexOf_ge[of s pat] have ge: "0 \<le> indexOf s pat" by linarith
      then have n: "nat (indexOf s pat + 1) = Suc (nat (indexOf s pat))" by linarith
      have "replace (c # s) pat r = c # replace s pat r"
        using False nf ge by (simp add: replace_def Let_def getSubstitution_plain[OF assms] n)
      with False Cons show ?thesis by simp
    qed
  qed
qed

lemma replaceFirst_first:
  "sublist pat s \<Longrightarrow>
   \<exists>pre post. s = pre @ pat @ post \<and> replaceFirst s pat r = pre @ r @ post
     \<and> (\<forall>pre' post'. s = pre' @ pat @ post' \<longrightarrow> length pre \<le> length pre')"
proof (induction s)
  case Nil
  then show ?case by simp
next
  case (Cons c s)
  show ?case
  proof (cases "prefix pat (c # s)")
    case True
    then obtain post where post: "c # s = pat @ post" by (auto simp: prefix_def)
    have "replaceFirst (c # s) pat r = r @ drop (length pat) (c # s)" using True by simp
    also have "drop (length pat) (c # s) = post" unfolding post by simp
    finally have "c # s = [] @ pat @ post \<and> replaceFirst (c # s) pat r = [] @ r @ post
        \<and> (\<forall>pre' post'. c # s = pre' @ pat @ post' \<longrightarrow> length ([]::string) \<le> length pre')"
      using post by simp
    then show ?thesis by blast
  next
    case False
    with Cons.prems have "sublist pat s" by (simp add: sublist_Cons_right)
    from Cons.IH[OF this] obtain pre post where
      p: "s = pre @ pat @ post" "replaceFirst s pat r = pre @ r @ post"
        "\<forall>pre' post'. s = pre' @ pat @ post' \<longrightarrow> length pre \<le> length pre'" by blast
    have "\<forall>pre' post'. c # s = pre' @ pat @ post' \<longrightarrow> length (c # pre) \<le> length pre'"
    proof (intro allI impI)
      fix pre' post' assume e: "c # s = pre' @ pat @ post'"
      show "length (c # pre) \<le> length pre'"
      proof (cases pre')
        case Nil
        with e False show ?thesis by (simp add: prefix_def)
      next
        case (Cons c' pre'')
        with e have "s = pre'' @ pat @ post'" by simp
        with p(3) have "length pre \<le> length pre''" by blast
        with Cons show ?thesis by simp
      qed
    qed
    with p(1,2) False have "c # s = (c # pre) @ pat @ post
        \<and> replaceFirst (c # s) pat r = (c # pre) @ r @ post
        \<and> (\<forall>pre' post'. c # s = pre' @ pat @ post' \<longrightarrow> length (c # pre) \<le> length pre')"
      by simp
    then show ?thesis by blast
  qed
qed

lemma fold_last_match:
  "fold (\<lambda>k uf. if P k then c k else uf) ks uf0
   = (if filter P ks = [] then uf0 else c (last (filter P ks)))"
  by (induction ks arbitrary: uf0) simp_all

lemma mapArray_map:
  "(\<And>x. x \<in> set xs \<Longrightarrow> f x = Inr (g x)) \<Longrightarrow> mapArray f xs = Inr (map g xs)"
  by (induction xs) simp_all

lemma selectField_eq: "selectField urm rootAlias field = Inr (selectedIn urm rootAlias field)"
proof -
  have loop: "forEach
       (\<lambda>relation uf.
          if indexOf field relation \<noteq> - 1 then
            (case getBinding urm relation of
               Inl e \<Rightarrow> Inl e
             | Inr b \<Rightarrow> Inr (replace field relation (uniqueAlias b)))
          else Inr uf)
       (Object_keys urm) field
     = Inr (fold (\<lambda>k uf. if sublist k field
                          then replace field k (uniqueAlias (the (map_of urm k))) else uf)
              (Object_keys urm) field)"
    by (rule forEach_fold) (simp add: getBinding_key indexOf_sublist)
  show ?thesis
    unfolding selectField_def loop fold_last_match
    by (simp add: selectedIn_def Let_def indexOf_dot_none)
qed

lemma assignSelectionToQuery_eq:
  "assignSelectionToQuery fieldMap urm query
   = Inr (query\<lparr>selects := selects query @ [map (selectedIn urm (alias' query)) fieldMap]\<rparr>)"
proof -
  have "mapArray (selectField urm (alias' query)) fieldMap
      = Inr (map (selectedIn urm (alias' query)) fieldMap)"
    by (rule mapArray_map) (rule selectField_eq)
  then show ?thesis by (simp add: assignSelectionToQuery_def select_def)
qed

lemma Object_keys_plain:
  "\<forall>e \<in> set urm. \<not> isArrayIndex (fst e) \<Longrightarrow> Object_keys urm = map fst urm"
  using ownEntries_plain[of urm] keys_ownEntries[of urm] by simp

lemma selectedIn_rewritten:
  assumes d: "distinct (map fst urm)"
    and plain: "\<forall>e \<in> set urm. \<not> isArrayIndex (fst e)"
    and tokens: "\<forall>e \<in> set urm. CHR ''$'' \<notin> set (uniqueAlias (snd e))"
  shows "selectedIn urm rootAlias field = rewritten urm rootAlias field"
proof -
  let ?ms = "filter (\<lambda>e. sublist (fst e) field) urm"
  have keys: "filter (\<lambda>k. sublist k field) (Object_keys urm) = map fst ?ms"
    by (simp add: Object_keys_plain[OF plain] filter_map comp_def)
  show ?thesis
  proof (cases "?ms = []")
    case True
    then show ?thesis by (simp add: selectedIn_def rewritten_def keys)
  next
    case False
    then have l: "last (map fst ?ms) = fst (last ?ms)" by (simp add: last_map)
    have "last ?ms \<in> set ?ms" using False by (rule last_in_set)
    then have mem: "last ?ms \<in> set urm" by simp
    then have "(fst (last ?ms), snd (last ?ms)) \<in> set urm" by simp
    from map_of_is_SomeI[OF d this]
    have b: "the (map_of urm (fst (last ?ms))) = snd (last ?ms)" by simp
    have "CHR ''$'' \<notin> set (uniqueAlias (snd (last ?ms)))" using tokens mem by blast
    from replace_plain[OF this]
    have r: "replace field (fst (last ?ms)) (uniqueAlias (snd (last ?ms)))
           = replaceFirst field (fst (last ?ms)) (uniqueAlias (snd (last ?ms)))" .
    show ?thesis using False by (simp add: selectedIn_def rewritten_def keys l b r Let_def)
  qed
qed

text \<open>
  Claim C2.  For a relation map whose keys are no array indices (so that the order of
  \<open>Object.keys\<close> is the order of creation) and whose aliases are alphanumeric tokens
  (free of \<open>$\<close>), \<open>assignSelectionToQuery\<close> calls \<open>select\<close> once, with a list that has
  one entry per input path in input order.  Each entry is computed from the original
  path: the first occurrence of the last key, in creation order, that occurs in the
  path is replaced by that key's \<open>uniqueAlias\<close> (the path itself when no key occurs),
  and a result without a dot is prefixed with the root alias and a dot.
\<close>

theorem projection_rewrites_each_path:
  assumes "distinct (map fst urm)"
    and "\<forall>e \<in> set urm. \<not> isArrayIndex (fst e)"
    and "\<forall>e \<in> set urm. CHR ''$'' \<notin> set (uniqueAlias (snd e))"
  shows "assignSelectionToQuery fieldMap urm query
           = Inr (query\<lparr>selects := selects query
                    @ [map (rewritten urm (alias' query)) fieldMap]\<rparr>)
       \<and> length (map (rewritten urm (alias' query)) fieldMap) = length fieldMap"
proof -
  have "map (selectedIn urm (alias' query)) fieldMap
      = map (rewritten urm (alias' query)) fieldMap"
    by (rule map_cong) (simp_all add: selectedIn_rewritten[OF assms])
  then show ?thesis by (simp add: assignSelectionToQuery_eq)
qed

theorem projection_rewrites_each_path_witness:
  "distinct (map fst exampleMap)
   \<and> list_all (\<lambda>e. \<not> isArrayIndex (fst e)) exampleMap
   \<and> list_all (\<lambda>e. CHR ''$'' \<notin> set (uniqueAlias (snd e))) exampleMap
   \<and> assignSelectionToQuery [''store.name'', ''store.location.city'', ''id''] exampleMap
        \<lparr>alias' = ''root'', joins = [], selects = []\<rparr>
      = Inr \<lparr>alias' = ''root'', joins = [],
             selects = [[''a.name'', ''aa.city'', ''root.id'']]\<rparr>"
proof -
  have d: "distinct (map fst exampleMap)" by (simp add: exampleMap_def)
  have p: "\<forall>e \<in> set exampleMap. \<not> isArrayIndex (fst e)" by code_simp
  have t: "\<forall>e \<in> set exampleMap. CHR ''$'' \<notin> set (uniqueAlias (snd e))"
    by (simp add: exampleMap_def)
  have m: "rewritten exampleMap ''root'' ''store.name'' = ''a.name''"
    "rewritten exampleMap ''root'' ''store.location.city'' = ''aa.city''"
    "rewritten exampleMap ''root'' ''id'' = ''root.id''" by code_simp+
  from projection_rewrites_each_path[OF d p t,
      of "[''store.name'', ''store.location.city'', ''id'']"
         "\<lparr>alias' = ''root'', joins = [], selects = []\<rparr>"]
  have "assignSelectionToQuery [''store.name'', ''store.location.city'', ''id''] exampleMap
        \<lparr>alias' = ''root'', joins = [], selects = []\<rparr>
      = Inr \<lparr>alias' = ''root'', joins = [],
             selects = [[''a.name'', ''aa.city'', ''root.id'']]\<rparr>"
    by (simp add: m)
  with d p t show ?thesis by (simp only: list_all_iff simp_thms)
qed

section \<open>mapGraph\<close>

lemma mapGraph_eq:
  assumes "sanitizeFieldMap fieldMap h = (eff, h')"
  shows "mapGraph makeId fieldMap query entity h =
    (let effective = present (h' ! eff);
         urm = resolved makeId 0 [] (getRelationMap effective);
         q1 = query\<lparr>joins := joins query
                @ map (\<lambda>k. joinOf (alias' query) (k, the (map_of urm k))) (Object_keys urm)\<rparr>
     in Inr (urm,
             q1\<lparr>selects := selects q1 @ [map (selectedIn urm (alias' q1)) effective]\<rparr>,
             h'))"
  by (simp add: mapGraph_def assms getUniqueRelationMap_eq joinRelationsToQuery_keys
      assignSelectionToQuery_eq Let_def)

lemma mapGraph_total: "\<exists>res. mapGraph makeId fieldMap query entity h = Inr res"
proof -
  obtain eff h' where "sanitizeFieldMap fieldMap h = (eff, h')"
    by (cases "sanitizeFieldMap fieldMap h")
  from mapGraph_eq[OF this, of makeId query entity] show ?thesis by (simp add: Let_def)
qed

lemma mapGraph_heap:
  assumes "mapGraph makeId fieldMap query entity h = Inr (urm, q', h')"
  shows "h' = snd (sanitizeFieldMap fieldMap h)"
proof -
  obtain eff h'' where s: "sanitizeFieldMap fieldMap h = (eff, h'')"
    by (cases "sanitizeFieldMap fieldMap h")
  from mapGraph_eq[OF s, of makeId query entity] assms show ?thesis
    by (simp add: Let_def s)
qed

text \<open>
  Claim C8.  For an empty \<open>fieldMap\<close> array \<open>mapGraph\<close> returns without an error (the
  calls to the collaborator returning): the map it returns has no entry, no
  \<open>leftJoinAndSelect\<close> call is added to the query builder, and exactly one \<open>select\<close>
  call is added, with the empty list.
\<close>

theorem mapGraph_empty:
  assumes "fieldMap < length h" and "h ! fieldMap = []"
  shows "\<exists>q'. mapGraph makeId fieldMap query entity h = Inr ([], q', h @ [[], []])
             \<and> joins q' = joins query
             \<and> selects q' = selects query @ [[]]
             \<and> alias' q' = alias' query"
proof -
  have "h ! fieldMap = map Some []" using assms(2) by simp
  from sanitizeFieldMap_eq[OF assms(1) this]
  have s: "sanitizeFieldMap fieldMap h = (Suc (length h), h @ [[], []])"
    by (simp add: marked_def sanitized_def)
  have g: "getRelationMap [] = []" by (simp add: getRelationMap_def)
  have k: "Object_keys [] = []" by (simp add: Object_keys_def)
  have "mapGraph makeId fieldMap query entity h
      = Inr ([], query\<lparr>joins := joins query @ [], selects := selects query @ [[]]\<rparr>, h @ [[], []])"
    unfolding mapGraph_eq[OF s] by (simp add: nth_append g k Let_def)
  then show ?thesis by simp
qed

theorem mapGraph_empty_witness:
  "(0::nat) < length [[]::array] \<and> [[]::array] ! 0 = []
   \<and> mapGraph constantIds 0 \<lparr>alias' = ''root'', joins = [], selects = []\<rparr> () [[]]
      = Inr ([], \<lparr>alias' = ''root'', joins = [], selects = [[]]\<rparr>, [[], [], []])"
proof -
  have a: "(0::nat) < length [[]::array]" by simp
  have b: "[[]::array] ! 0 = []" by simp
  from mapGraph_empty[OF a b, of constantIds "\<lparr>alias' = ''root'', joins = [], selects = []\<rparr>" "()"]
  obtain q' where q: "mapGraph constantIds 0 \<lparr>alias' = ''root'', joins = [], selects = []\<rparr> () [[]]
      = Inr ([], q', [[]] @ [[], []])"
    "joins q' = joins \<lparr>alias' = ''root'', joins = [], selects = []\<rparr>"
    "selects q' = selects \<lparr>alias' = ''root'', joins = [], selects = []\<rparr> @ [[]]"
    "alias' q' = alias' \<lparr>alias' = ''root'', joins = [], selects = []\<rparr>" by blast
  have "q' = \<lparr>alias' = ''root'', joins = [], selects = [[]]\<rparr>"
    using q(2,3,4) by (cases q') simp
  with q(1) a b show ?thesis by simp
qed

text \<open>
  Claim C10.  \<open>sanitizeFieldMap\<close> works on a copy: the array it returns is a new one,
  and after the call the store holds at every old reference, the argument among
  them, what it held before.  \<open>mapGraph\<close> changes the store through \<open>sanitizeFieldMap\<close>
  only, so it leaves the caller's array unchanged as well.
\<close>

theorem caller_array_unchanged:
  assumes "fieldMap < length h" and "None \<notin> set (h ! fieldMap)"
  shows "(\<exists>res h'. sanitizeFieldMap fieldMap h = (res, h')
            \<and> res \<noteq> fieldMap \<and> take (length h) h' = h \<and> h' ! fieldMap = h ! fieldMap)
       \<and> (\<exists>urm q' h'. mapGraph makeId fieldMap query entity h = Inr (urm, q', h')
            \<and> take (length h) h' = h \<and> h' ! fieldMap = h ! fieldMap)"
proof -
  let ?xs = "map the (h ! fieldMap)"
  let ?h' = "h @ [marked ?xs (length ?xs), map Some (sanitized ?xs)]"
  have "h ! fieldMap = map Some ?xs" by (rule dense_map_Some[OF assms(2)])
  from sanitizeFieldMap_eq[OF assms(1) this]
  have s: "sanitizeFieldMap fieldMap h = (Suc (length h), ?h')" .
  have frame: "take (length h) ?h' = h" "?h' ! fieldMap = h ! fieldMap"
    using assms(1) by (simp_all add: nth_append)
  have fresh: "Suc (length h) \<noteq> fieldMap" using assms(1) by simp
  have first: "\<exists>res h'. sanitizeFieldMap fieldMap h = (res, h')
            \<and> res \<noteq> fieldMap \<and> take (length h) h' = h \<and> h' ! fieldMap = h ! fieldMap"
    using s frame fresh by blast
  from mapGraph_total[of makeId fieldMap query entity h] obtain urm q' h'' where
    m: "mapGraph makeId fieldMap query entity h = Inr (urm, q', h'')"
    by (metis prod_cases3)
  from mapGraph_heap[OF m] s have "h'' = ?h'" by simp
  with m frame have "\<exists>urm q' h'. mapGraph makeId fieldMap query entity h = Inr (urm, q', h')
            \<and> take (length h) h' = h \<and> h' ! fieldMap = h ! fieldMap" by blast
  with first show ?thesis by (rule conjI)
qed

theorem caller_array_unchanged_witness:
  "(0::nat) < length [map Some [''store'', ''store.id'']]
   \<and> None \<notin> set ([map Some [''store'', ''store.id'']] ! 0)
   \<and> sanitizeFieldMap 0 [map Some [''store'', ''store.id'']]
       = (2, [[Some ''store'', Some ''store.id''], [None, Some ''store.id''], [Some ''store.id'']])
   \<and> [[Some ''store'', Some ''store.id''], [None, Some ''store.id''], [Some ''store.id'']] ! 0
       = [map Some [''store'', ''store.id'']] ! 0"
proof -
  let ?H = "[map Some [''store'', ''store.id'']]"
  let ?H' = "[[Some ''store'', Some ''store.id''], [None, Some ''store.id''], [Some ''store.id'']]"
  have a: "(0::nat) < length ?H" by simp
  have b: "None \<notin> set (?H ! 0)" by simp
  have c: "sanitizeFieldMap 0 ?H = (2, ?H')" by code_simp
  from caller_array_unchanged[OF a b, of constantIds "\<lparr>alias' = ''root'', joins = [], selects = []\<rparr>" "()"]
  obtain res h' where "sanitizeFieldMap 0 ?H = (res, h')" "h' ! 0 = ?H ! 0" by blast
  with c have "?H' ! 0 = ?H ! 0" by simp
  with a b c show ?thesis by (intro conjI)
qed

lemma mapGraph_returns:
  assumes "fieldMapRef < length h" and "None \<notin> set (h ! fieldMapRef)"
  shows "\<exists>res. mapGraph makeId fieldMapRef query entity h = Inr res"
proof -
  have "h ! fieldMapRef = map Some (map the (h ! fieldMapRef))"
    by (rule dense_map_Some[OF assms(2)])
  from sanitizeFieldMap_eq[OF assms(1) this] obtain eff h' where
    "sanitizeFieldMap fieldMapRef h = (eff, h')" by blast
  from mapGraph_eq[OF this, of makeId query entity] show ?thesis by (simp add: Let_def)
qed

lemma stored_relation:
  assumes run: "getUniqueRelationMap makeId fieldMap = Inr urm"
    and R: "R \<in> set (getRelationMap fieldMap)" and l: "CHR ''.'' \<notin> set leaf"
    and Rd: "R = parent @ ''.'' @ leaf"
  shows "\<exists>earlier b later. urm = earlier @ (R, b) # later
           \<and> targetRelation b = R
           \<and> (parent \<notin> fst ` set earlier \<longrightarrow> aliasedTargetRelation b = R)"
proof -
  have "CHR ''.'' \<in> set R" unfolding Rd by simp
  moreover have "CHR ''.'' \<notin> set ''__proto__''" by simp
  ultimately have "R \<noteq> ''__proto__''" by metis
  with R have "R \<in> set (filter (\<lambda>R. R \<noteq> ''__proto__'') (getRelationMap fieldMap))" by simp
  then have "R \<in> set (map fst urm)" by (simp only: keys_result[OF run])
  then obtain e where e: "e \<in> set urm" "fst e = R" by auto
  from split_list[OF e(1)] obtain earlier later where split: "urm = earlier @ e # later" by blast
  obtain b where eb: "e = (R, b)" using e(2) by (cases e) simp
  from chained_entry[OF chained_result[OF run] split]
  have t: "targetRelation b = R" and a: "aliasedTargetRelation b = aliasedOf earlier R"
    unfolding eb by simp_all
  have "parent \<notin> fst ` set earlier \<longrightarrow> aliasedTargetRelation b = R"
  proof
    assume p: "parent \<notin> fst ` set earlier"
    show "aliasedTargetRelation b = R"
      unfolding a unfolding Rd by (rule aliasedOf_no_parent[OF l p])
  qed
  with split t show ?thesis unfolding eb by blast
qed

text \<open>
  Claim C7.  No operation fails.  \<open>getUniqueRelationMap\<close> always returns a map; its
  keys, which are pairwise different, are the relation paths of the input in their
  order, without \<open>__proto__\<close>.  Every relation path \<open>parent.leaf\<close> of the input, with no
  dot in \<open>leaf\<close>, is stored under its own key as \<open>targetRelation\<close>, and when its parent is
  not the key of an earlier entry its \<open>aliasedTargetRelation\<close> is the path itself, the
  full dotted path.  \<open>joinRelationsToQuery\<close> and \<open>assignSelectionToQuery\<close> return for
  every map, and \<open>mapGraph\<close> returns for every argument array without holes: the read
  of a field of \<open>urm[relation]\<close>, the only operation of the source that can fail on
  strings, is only made for keys of the map.  (\<open>sanitizeFieldMap\<close> and \<open>getRelationMap\<close>
  have no operation that can fail on an array of strings; the calls to the
  collaborator return, and what a collaborator raises is not an error of the planning
  layer's own.)
\<close>

theorem planning_never_fails:
  "(\<exists>urm. getUniqueRelationMap makeId fieldMap = Inr urm
       \<and> distinct (map fst urm)
       \<and> map fst urm = filter (\<lambda>R. R \<noteq> ''__proto__'') (getRelationMap fieldMap)
       \<and> (\<forall>R parent leaf.
             R \<in> set (getRelationMap fieldMap) \<and> R = parent @ ''.'' @ leaf
             \<and> CHR ''.'' \<notin> set leaf
             \<longrightarrow> (\<exists>earlier b later. urm = earlier @ (R, b) # later
                    \<and> targetRelation b = R
                    \<and> (parent \<notin> fst ` set earlier \<longrightarrow> aliasedTargetRelation b = R)))
       \<and> (\<forall>earlier R b later parent leaf.
             urm = earlier @ (R, b) # later \<and> R = parent @ ''.'' @ leaf
             \<and> CHR ''.'' \<notin> set leaf \<and> parent \<notin> fst ` set earlier
             \<longrightarrow> aliasedTargetRelation b = R))
   \<and> (\<exists>q'. joinRelationsToQuery urm0 query = Inr q')
   \<and> (\<exists>q'. assignSelectionToQuery paths urm0 query = Inr q')
   \<and> (fieldMapRef < length h \<and> None \<notin> set (h ! fieldMapRef)
        \<longrightarrow> (\<exists>res. mapGraph makeId fieldMapRef query entity h = Inr res))"
proof (intro conjI)
  let ?urm = "resolved makeId 0 [] (getRelationMap fieldMap)"
  have run: "getUniqueRelationMap makeId fieldMap = Inr ?urm" by (rule getUniqueRelationMap_eq)
  have d: "distinct (map fst ?urm)" by (rule distinct_keys_result[OF run])
  have k: "map fst ?urm = filter (\<lambda>R. R \<noteq> ''__proto__'') (getRelationMap fieldMap)"
    by (rule keys_result[OF run])
  have stored: "\<forall>R parent leaf.
             R \<in> set (getRelationMap fieldMap) \<and> R = parent @ ''.'' @ leaf
             \<and> CHR ''.'' \<notin> set leaf
             \<longrightarrow> (\<exists>earlier b later. ?urm = earlier @ (R, b) # later
                    \<and> targetRelation b = R
                    \<and> (parent \<notin> fst ` set earlier \<longrightarrow> aliasedTargetRelation b = R))"
  proof (intro allI impI)
    fix R parent leaf
    assume "R \<in> set (getRelationMap fieldMap) \<and> R = parent @ ''.'' @ leaf
             \<and> CHR ''.'' \<notin> set leaf"
    then have R: "R \<in> set (getRelationMap fieldMap)" and Rd: "R = parent @ ''.'' @ leaf"
      and l: "CHR ''.'' \<notin> set leaf" by blast+
    show "\<exists>earlier b later. ?urm = earlier @ (R, b) # later
                    \<and> targetRelation b = R
                    \<and> (parent \<notin> fst ` set earlier \<longrightarrow> aliasedTargetRelation b = R)"
      by (rule stored_relation[OF run R l Rd])
  qed
  have fallback: "\<forall>earlier R b later parent leaf.
             ?urm = earlier @ (R, b) # later \<and> R = parent @ ''.'' @ leaf
             \<and> CHR ''.'' \<notin> set leaf \<and> parent \<notin> fst ` set earlier
             \<longrightarrow> aliasedTargetRelation b = R"
  proof (intro allI impI)
    fix earlier R b later parent leaf
    assume a: "?urm = earlier @ (R, b) # later \<and> R = parent @ ''.'' @ leaf
             \<and> CHR ''.'' \<notin> set leaf \<and> parent \<notin> fst ` set earlier"
    then have split: "?urm = earlier @ (R, b) # later" and R: "R = parent @ ''.'' @ leaf"
      and l: "CHR ''.'' \<notin> set leaf" and p: "parent \<notin> fst ` set earlier" by simp_all
    from chained_entry[OF chained_result[OF run] split]
    have "aliasedTargetRelation b = aliasedOf earlier R" by simp
    then show "aliasedTargetRelation b = R"
      unfolding R by (simp only: aliasedOf_no_parent[OF l p])
  qed
  from run d k stored fallback
  show "\<exists>urm. getUniqueRelationMap makeId fieldMap = Inr urm
       \<and> distinct (map fst urm)
       \<and> map fst urm = filter (\<lambda>R. R \<noteq> ''__proto__'') (getRelationMap fieldMap)
       \<and> (\<forall>R parent leaf.
             R \<in> set (getRelationMap fieldMap) \<and> R = parent @ ''.'' @ leaf
             \<and> CHR ''.'' \<notin> set leaf
             \<longrightarrow> (\<exists>earlier b later. urm = earlier @ (R, b) # later
                    \<and> targetRelation b = R
                    \<and> (parent \<notin> fst ` set earlier \<longrightarrow> aliasedTargetRelation b = R)))
       \<and> (\<forall>earlier R b later parent leaf.
             urm = earlier @ (R, b) # later \<and> R = parent @ ''.'' @ leaf
             \<and> CHR ''.'' \<notin> set leaf \<and> parent \<notin> fst ` set earlier
             \<longrightarrow> aliasedTargetRelation b = R)"
    by (intro exI[of _ ?urm] conjI)
next
  show "\<exists>q'. joinRelationsToQuery urm0 query = Inr q'"
    by (simp add: joinRelationsToQuery_keys)
next
  show "\<exists>q'. assignSelectionToQuery paths urm0 query = Inr q'"
    by (simp add: assignSelectionToQuery_eq)
next
  show "fieldMapRef < length h \<and> None \<notin> set (h ! fieldMapRef)
        \<longrightarrow> (\<exists>res. mapGraph makeId fieldMapRef query entity h = Inr res)"
  proof
    assume a: "fieldMapRef < length h \<and> None \<notin> set (h ! fieldMapRef)"
    from a have live: "fieldMapRef < length h" by (rule conjunct1)
    from a have dense: "None \<notin> set (h ! fieldMapRef)" by (rule conjunct2)
    show "\<exists>res. mapGraph makeId fieldMapRef query entity h = Inr res"
      by (rule mapGraph_returns[OF live dense])
  qed
qed


theorem planning_never_fails_witness:
  "getUniqueRelationMap countingIds [''a.x'', ''b.c.y'']
     = Inr [(''a'', \<lparr>uniqueAlias = ''a'', targetRelation = ''a'', aliasedTargetRelation = ''a''\<rparr>),
            (''b.c'', \<lparr>uniqueAlias = ''aa'', targetRelation = ''b.c'',
                       aliasedTargetRelation = ''b.c''\<rparr>)]
   \<and> map fst [(''a'', \<lparr>uniqueAlias = ''a'', targetRelation = ''a'',
                        aliasedTargetRelation = ''a''\<rparr>),
               (''b.c'', \<lparr>uniqueAlias = ''aa'', targetRelation = ''b.c'',
                          aliasedTargetRelation = ''b.c''\<rparr>)]
       = filter (\<lambda>R. R \<noteq> ''__proto__'') (getRelationMap [''a.x'', ''b.c.y''])
   \<and> ''b.c'' \<in> set (getRelationMap [''a.x'', ''b.c.y''])
   \<and> ''b'' \<notin> fst ` set [(''a'', \<lparr>uniqueAlias = ''a'', targetRelation = ''a'',
                                      aliasedTargetRelation = ''a''\<rparr>)]
   \<and> aliasedTargetRelation \<lparr>uniqueAlias = ''aa'', targetRelation = ''b.c'',
                              aliasedTargetRelation = ''b.c''\<rparr> = ''b.c''
   \<and> (0::nat) < length [map Some [''a.x'', ''b.c.y'']]
   \<and> None \<notin> set ([map Some [''a.x'', ''b.c.y'']] ! 0)
   \<and> (\<exists>res. mapGraph countingIds 0 \<lparr>alias' = ''root'', joins = [], selects = []\<rparr> ()
                [map Some [''a.x'', ''b.c.y'']] = Inr res)"
proof -
  let ?a = "\<lparr>uniqueAlias = ''a'', targetRelation = ''a'', aliasedTargetRelation = ''a''\<rparr>"
  let ?b = "\<lparr>uniqueAlias = ''aa'', targetRelation = ''b.c'', aliasedTargetRelation = ''b.c''\<rparr>"
  let ?fm = "[''a.x'', ''b.c.y'']"
  let ?q = "\<lparr>alias' = ''root'', joins = [], selects = []\<rparr>"
  have rel: "getRelationMap ?fm = [''a'', ''b.c'']" by code_simp
  have bld: "beforeLastDot ''b.c'' = ''b''"
    using beforeLastDot_decomp[of "''c''" "''b''"] by simp
  have run: "getUniqueRelationMap countingIds ?fm = Inr [(''a'', ?a), (''b.c'', ?b)]"
    by (simp add: getUniqueRelationMap_eq rel aliasedOf_def countingIds_def bld)
  have mem: "''b.c'' \<in> set (getRelationMap ?fm)" by (simp add: rel)
  have np: "''b'' \<notin> fst ` set [(''a'', ?a)]" by simp
  have hyp: "[(''a'', ?a), (''b.c'', ?b)] = [(''a'', ?a)] @ (''b.c'', ?b) # []
      \<and> ''b.c'' = ''b'' @ ''.'' @ ''c''
      \<and> CHR ''.'' \<notin> set ''c'' \<and> ''b'' \<notin> fst ` set [(''a'', ?a)]"
    by simp
  have live: "(0::nat) < length [map Some ?fm]" by simp
  have dense: "None \<notin> set ([map Some ?fm] ! 0)" by simp
  note inst = planning_never_fails[of countingIds ?fm "[]" ?q "[]" 0 "[map Some ?fm]" "()"]
  from inst have "\<exists>urm. getUniqueRelationMap countingIds ?fm = Inr urm
       \<and> distinct (map fst urm)
       \<and> map fst urm = filter (\<lambda>R. R \<noteq> ''__proto__'') (getRelationMap ?fm)
       \<and> (\<forall>R parent leaf.
             R \<in> set (getRelationMap ?fm) \<and> R = parent @ ''.'' @ leaf
             \<and> CHR ''.'' \<notin> set leaf
             \<longrightarrow> (\<exists>earlier b later. urm = earlier @ (R, b) # later
                    \<and> targetRelation b = R
                    \<and> (parent \<notin> fst ` set earlier \<longrightarrow> aliasedTargetRelation b = R)))
       \<and> (\<forall>earlier R b later parent leaf.
             urm = earlier @ (R, b) # later \<and> R = parent @ ''.'' @ leaf
             \<and> CHR ''.'' \<notin> set leaf \<and> parent \<notin> fst ` set earlier
             \<longrightarrow> aliasedTargetRelation b = R)"
    by (rule conjunct1)
  then obtain urm where u: "getUniqueRelationMap countingIds ?fm = Inr urm
       \<and> distinct (map fst urm)
       \<and> map fst urm = filter (\<lambda>R. R \<noteq> ''__proto__'') (getRelationMap ?fm)
       \<and> (\<forall>R parent leaf.
             R \<in> set (getRelationMap ?fm) \<and> R = parent @ ''.'' @ leaf
             \<and> CHR ''.'' \<notin> set leaf
             \<longrightarrow> (\<exists>earlier b later. urm = earlier @ (R, b) # later
                    \<and> targetRelation b = R
                    \<and> (parent \<notin> fst ` set earlier \<longrightarrow> aliasedTargetRelation b = R)))
       \<and> (\<forall>earlier R b later parent leaf.
             urm = earlier @ (R, b) # later \<and> R = parent @ ''.'' @ leaf
             \<and> CHR ''.'' \<notin> set leaf \<and> parent \<notin> fst ` set earlier
             \<longrightarrow> aliasedTargetRelation b = R)" ..
  from u have u1: "getUniqueRelationMap countingIds ?fm = Inr urm" by (rule conjunct1)
  with run have urm: "urm = [(''a'', ?a), (''b.c'', ?b)]" by simp
  from u have "map fst urm = filter (\<lambda>R. R \<noteq> ''__proto__'') (getRelationMap ?fm)"
    by (rule conjunct1[OF conjunct2[OF conjunct2]])
  then have keys: "map fst [(''a'', ?a), (''b.c'', ?b)]
      = filter (\<lambda>R. R \<noteq> ''__proto__'') (getRelationMap ?fm)"
    unfolding urm .
  from u have "\<forall>earlier R b later parent leaf.
             urm = earlier @ (R, b) # later \<and> R = parent @ ''.'' @ leaf
             \<and> CHR ''.'' \<notin> set leaf \<and> parent \<notin> fst ` set earlier
             \<longrightarrow> aliasedTargetRelation b = R"
    by (rule conjunct2[OF conjunct2[OF conjunct2[OF conjunct2]]])
  then have "\<forall>earlier R b later parent leaf.
             [(''a'', ?a), (''b.c'', ?b)] = earlier @ (R, b) # later \<and> R = parent @ ''.'' @ leaf
             \<and> CHR ''.'' \<notin> set leaf \<and> parent \<notin> fst ` set earlier
             \<longrightarrow> aliasedTargetRelation b = R"
    unfolding urm .
  from this[rule_format, OF hyp] have al: "aliasedTargetRelation ?b = ''b.c''" .
  from inst have "(0::nat) < length [map Some ?fm] \<and> None \<notin> set ([map Some ?fm] ! 0)
        \<longrightarrow> (\<exists>res. mapGraph countingIds 0 ?q () [map Some ?fm] = Inr res)"
    by (rule conjunct2[OF conjunct2[OF conjunct2]])
  from this[rule_format, OF conjI[OF live dense]]
  have ret: "\<exists>res. mapGraph countingIds 0 ?q () [map Some ?fm] = Inr res" .
  from run keys mem np al live dense ret show ?thesis by (intro conjI)
qed

end
